theory Spec2Isabelle
  imports
    Main
    "HOL-Library.Char_ord"
    "HOL-Library.List_Lexorder"
    "HOL-Library.Product_Lexorder"
    "HOL-Library.AList"
    "HOL-Library.Multiset"
begin

section \<open>Values and their order\<close>

text \<open>
  The solver hands over atoms \<open>(predicate, args)\<close>: a predicate name and a sequence of
  terms. A term is an integer, a string or a nested tuple.
\<close>

text \<open>
  Modelled from the spec: the class \<open>as_pyasp.Atom\<close> is not part of the sources;
  \<open>answers.py\<close> constructs its objects and never inspects them. The specification
  describes a value object with the two fields predicate and arguments: \<open>VAtom p a\<close> is
  \<open>as_pyasp.Atom(p, a)\<close>, equal to another one when both fields are equal.
\<close>

datatype pyval = VInt int | VStr string | VTuple "pyval list" | VAtom string pyval

text \<open>The exceptions: TypeError of a comparison, IndexError, ValueError and TypeError of
  the constructor of the test, and the failure of a group of the decoder.\<close>

datatype error = TypeError | IndexError | ValueError | ArityUnsatisfied

text \<open>
  Python's \<open><\<close> is defined between two integers, between two strings (by code
  points; a string is kept as its bytes, whose order is the same) and between two
  tuples: the tuples are compared at the first position where their items are not
  equal, and by length when there is none. Everything else raises TypeError.
  \<open>orderable x y\<close> says that \<open>x < y\<close> is defined; \<open>py_less x y\<close> is its value there.
  Where Python raises, \<open>py_less\<close> orders the values by their kind, which makes it a
  linear order; \<open>sorted_tuple\<close> below never looks at that part.
\<close>

text \<open>
  Modelled from the spec: the order of two \<open>Atom\<close> objects, in the fourth equation of
  \<open>py_less\<close> and of \<open>orderable\<close>. The specification sorts containers of such objects
  and gives them no order of their own; they are compared as the pairs
  \<open>(predicate, arguments)\<close> they wrap.
\<close>

fun kind :: "pyval \<Rightarrow> nat" where
  "kind (VInt _) = 0"
| "kind (VStr _) = 1"
| "kind (VTuple _) = 2"
| "kind (VAtom _ _) = 3"

fun py_less :: "pyval \<Rightarrow> pyval \<Rightarrow> bool"
  and py_less_seq :: "pyval list \<Rightarrow> pyval list \<Rightarrow> bool" where
  "py_less (VInt a) (VInt b) = (a < b)"
| "py_less (VStr a) (VStr b) = (a < b)"
| "py_less (VTuple xs) (VTuple ys) = py_less_seq xs ys"
| "py_less (VAtom p a) (VAtom q b) = (p < q \<or> (p = q \<and> py_less a b))"
| "py_less x y = (kind x < kind y)"
| "py_less_seq [] [] = False"
| "py_less_seq [] (y # ys) = True"
| "py_less_seq (x # xs) [] = False"
| "py_less_seq (x # xs) (y # ys) = (if x = y then py_less_seq xs ys else py_less x y)"

fun orderable :: "pyval \<Rightarrow> pyval \<Rightarrow> bool"
  and orderable_seq :: "pyval list \<Rightarrow> pyval list \<Rightarrow> bool" where
  "orderable (VInt a) (VInt b) = True"
| "orderable (VStr a) (VStr b) = True"
| "orderable (VTuple xs) (VTuple ys) = orderable_seq xs ys"
| "orderable (VAtom p a) (VAtom q b) = (p = q \<longrightarrow> orderable a b)"
| "orderable x y = False"
| "orderable_seq (x # xs) (y # ys) = (if x = y then orderable_seq xs ys else orderable x y)"
| "orderable_seq xs ys = True"

text \<open>A pair \<open>(pred, args)\<close> is a tuple of length two whose first item is a string.\<close>

definition orderable_pair :: "string \<times> pyval \<Rightarrow> string \<times> pyval \<Rightarrow> bool" where
  "orderable_pair a b = (fst a = fst b \<longrightarrow> orderable (snd a) (snd b))"

lemma py_less_seq_irrefl: "\<not> py_less_seq xs xs"
  by (induction xs) auto

lemma py_less_irrefl: "\<not> py_less x x"
  by (induction x) (auto simp: py_less_seq_irrefl)

lemma py_less_total:
  "x \<noteq> y \<Longrightarrow> py_less x y \<or> py_less y x"
  "xs \<noteq> ys \<Longrightarrow> py_less_seq xs ys \<or> py_less_seq ys xs"
  by (induction x y and xs ys rule: py_less_py_less_seq.induct) auto

lemma py_less_asym:
  "py_less x y \<Longrightarrow> \<not> py_less y x"
  "py_less_seq xs ys \<Longrightarrow> \<not> py_less_seq ys xs"
  by (induction x y and xs ys rule: py_less_py_less_seq.induct) (auto split: if_splits)

lemma py_less_left:
  "py_less (VInt a) z = (case z of VInt b \<Rightarrow> a < b | _ \<Rightarrow> True)"
  "py_less (VStr s) z = (case z of VInt _ \<Rightarrow> False | VStr t \<Rightarrow> s < t | _ \<Rightarrow> True)"
  "py_less (VTuple xs) z =
     (case z of VTuple ys \<Rightarrow> py_less_seq xs ys | VAtom _ _ \<Rightarrow> True | _ \<Rightarrow> False)"
  "py_less (VAtom p u) z =
     (case z of VAtom q v \<Rightarrow> p < q \<or> (p = q \<and> py_less u v) | _ \<Rightarrow> False)"
  by (cases z; simp)+

lemma py_less_seq_left:
  "py_less_seq [] zs = (zs \<noteq> [])"
  "py_less_seq (x # xs) zs =
     (case zs of [] \<Rightarrow> False
      | z # zs' \<Rightarrow> if x = z then py_less_seq xs zs' else py_less x z)"
  by (cases zs; simp)+

lemma py_less_trans:
  "py_less x y \<Longrightarrow> py_less y z \<Longrightarrow> py_less x z"
  "py_less_seq xs ys \<Longrightarrow> py_less_seq ys zs \<Longrightarrow> py_less_seq xs zs"
proof (induction x y and xs ys arbitrary: z and zs rule: py_less_py_less_seq.induct)
  case (9 x xs y ys)
  then show ?case
    by (cases zs) (auto split: if_splits dest: py_less_asym(1))
qed (auto simp: py_less_left py_less_seq_left split: pyval.splits list.splits)

instantiation pyval :: linorder
begin

definition less_pyval :: "pyval \<Rightarrow> pyval \<Rightarrow> bool" where
  "less_pyval x y = py_less x y"

definition less_eq_pyval :: "pyval \<Rightarrow> pyval \<Rightarrow> bool" where
  "less_eq_pyval x y = (x = y \<or> py_less x y)"

instance
proof
  fix x y z :: pyval
  show "(x < y) = (x \<le> y \<and> \<not> y \<le> x)"
    unfolding less_pyval_def less_eq_pyval_def
    using py_less_asym(1) py_less_irrefl by blast
  show "x \<le> x"
    by (simp add: less_eq_pyval_def)
  show "x \<le> y \<Longrightarrow> y \<le> z \<Longrightarrow> x \<le> z"
    unfolding less_eq_pyval_def using py_less_trans(1) by blast
  show "x \<le> y \<Longrightarrow> y \<le> x \<Longrightarrow> x = y"
    unfolding less_eq_pyval_def using py_less_asym(1) by blast
  show "x \<le> y \<or> y \<le> x"
    unfolding less_eq_pyval_def using py_less_total(1) by blast
qed

end

section \<open>The containers built by \<open>__iter__\<close>\<close>

text \<open>
  \<open>builder\<close> is \<open>frozenset\<close>, or \<open>sorted_tuple = lambda it: tuple(sorted(it))\<close> when the
  flag \<open>_sorted\<close> is set. \<open>sorted\<close> keeps every item of its input, duplicates too, and
  raises TypeError when it compares two items that Python cannot order. Which items
  it compares depends on the order of its input, but a sort that only compares has to
  compare the items that end up next to each other, and of the items that cannot be
  ordered two always do: \<open>sorted\<close> raises exactly when its input holds two items that
  cannot be ordered. The parameter \<open>ok\<close> is \<open>orderable\<close> at the type of the items.
\<close>

datatype 'a container = FrozenSet "'a set" | SortedTuple "'a list"

definition sorted_tuple :: "('a \<Rightarrow> 'a \<Rightarrow> bool) \<Rightarrow> 'a::linorder list \<Rightarrow> error + 'a container" where
  "sorted_tuple ok it =
     (if list_all (\<lambda>x. list_all (ok x) it) it then Inr (SortedTuple (sort it))
      else Inl TypeError)"

definition builder ::
  "bool \<Rightarrow> ('a \<Rightarrow> 'a \<Rightarrow> bool) \<Rightarrow> 'a::linorder list \<Rightarrow> error + 'a container" where
  "builder srt ok it = (if srt then sorted_tuple ok it else Inr (FrozenSet (set it)))"

text \<open>
  Iterating a tuple gives its items in order. Python does not say in which order a
  set or frozenset is iterated; the model takes the increasing one, and
  \<open>group_atoms_set\<close> and \<open>builder_enumeration\<close> below show that the mapping of the
  grouping loop and the container built from a set are those of any other order.
\<close>

definition elements :: "'a::linorder set \<Rightarrow> 'a list" where
  "elements S = sorted_list_of_set S"

fun iterate :: "'a::linorder container \<Rightarrow> 'a list" where
  "iterate (FrozenSet S) = elements S"
| "iterate (SortedTuple xs) = xs"

text \<open>What \<open>__iter__\<close> yields: a container of pairs, a container of \<open>Atom\<close> objects, or a
  dict from predicates to containers.\<close>

datatype answer =
    Pairs "(string \<times> pyval) container"
  | Atoms "pyval container"
  | Dict "string \<rightharpoonup> pyval container"

section \<open>The body of the loop of \<open>__iter__\<close>\<close>

text \<open>Line 53: \<open>args[0] if args else ()\<close>.\<close>

definition first_arg :: "pyval list \<Rightarrow> pyval" where
  "first_arg args = (case args of [] \<Rightarrow> VTuple [] | a # _ \<Rightarrow> a)"

text \<open>Lines 52 to 57: the pairs handed to \<open>builder\<close>.\<close>

definition arguments :: "bool \<Rightarrow> pyval list \<Rightarrow> pyval" where
  "arguments first_only args = (if first_only then first_arg args else VTuple args)"

definition pairs :: "bool \<Rightarrow> (string \<times> pyval list) list \<Rightarrow> (string \<times> pyval) list" where
  "pairs first_only answer_set = map (\<lambda>(pred, args). (pred, arguments first_only args)) answer_set"

text \<open>
  Lines 60 to 64: \<open>mapping\<close> is a \<open>defaultdict(set)\<close>, a dict in insertion order whose
  missing keys start as the empty set.
\<close>

definition wrapped :: "bool \<Rightarrow> string \<Rightarrow> pyval \<Rightarrow> pyval" where
  "wrapped as_obj pred args = (if as_obj then VAtom pred args else args)"

fun group_atoms :: "bool \<Rightarrow> (string \<times> pyval) list \<Rightarrow> (string \<times> pyval set) list
    \<Rightarrow> (string \<times> pyval set) list" where
  "group_atoms as_obj [] mapping = mapping"
| "group_atoms as_obj ((pred, args) # rest) mapping =
     group_atoms as_obj rest
       (AList.map_default pred {wrapped as_obj pred args} (insert (wrapped as_obj pred args))
          mapping)"

text \<open>Lines 65 and 66: the dict comprehension; the first bucket that cannot be sorted
  raises.\<close>

fun buckets :: "bool \<Rightarrow> (string \<times> pyval set) list \<Rightarrow> error + (string \<times> pyval container) list" where
  "buckets srt [] = Inr []"
| "buckets srt ((pred, args) # rest) =
     (case builder srt orderable (elements args) of
        Inl e \<Rightarrow> Inl e
      | Inr c \<Rightarrow> (case buckets srt rest of Inl e \<Rightarrow> Inl e | Inr cs \<Rightarrow> Inr ((pred, c) # cs)))"

text \<open>
  Lines 52 to 69 for one answer set. \<open>srt\<close> stands for the choice of \<open>builder\<close> made at
  line 50; the three other flags are the fields of the object as the loop reads them.
\<close>

definition iter_body ::
  "bool \<Rightarrow> bool \<Rightarrow> bool \<Rightarrow> bool \<Rightarrow> (string \<times> pyval list) list \<Rightarrow> error + answer" where
  "iter_body srt first_only grouped as_obj answer_set =
     (case builder srt orderable_pair (pairs first_only answer_set) of
        Inl e \<Rightarrow> Inl e
      | Inr built \<Rightarrow>
          if grouped then
            (case buckets srt (group_atoms as_obj (iterate built) []) of
               Inl e \<Rightarrow> Inl e
             | Inr d \<Rightarrow> Inr (Dict (map_of d)))
          else if as_obj then
            (case builder srt orderable (map (\<lambda>(pred, args). VAtom pred args) (iterate built)) of
               Inl e \<Rightarrow> Inl e
             | Inr c \<Rightarrow> Inr (Atoms c))
          else Inr (Pairs built))"

section \<open>The object and its generators\<close>

text \<open>
  \<open>self._answers\<close> is an iterator: the model keeps the answer sets it has not produced
  yet, finitely many. The four properties set their flag and return the object.
\<close>

record Answers =
  self_answers :: "(string \<times> pyval list) list list"
  self_first_arg_only :: bool
  self_group_atoms :: bool
  self_as_pyasp :: bool
  self_sorted :: bool

definition init :: "(string \<times> pyval list) list list \<Rightarrow> Answers" where
  "init answers =
     \<lparr>self_answers = answers, self_first_arg_only = False, self_group_atoms = False,
      self_as_pyasp = False, self_sorted = False\<rparr>"

definition first_arg_only :: "Answers \<Rightarrow> Answers" where
  "first_arg_only self = self\<lparr>self_first_arg_only := True\<rparr>"

definition by_predicate :: "Answers \<Rightarrow> Answers" where
  "by_predicate self = self\<lparr>self_group_atoms := True\<rparr>"

definition as_pyasp :: "Answers \<Rightarrow> Answers" where
  "as_pyasp self = self\<lparr>self_as_pyasp := True\<rparr>"

definition sorted_prop :: "Answers \<Rightarrow> Answers" where
  "sorted_prop self = self\<lparr>self_sorted := True\<rparr>"

text \<open>
  \<open>__iter__\<close> is a generator function. Calling it runs nothing: the generator is
  \<open>Created\<close>. The first \<open>next\<close> runs lines 49 and 50, which fix \<open>builder\<close>, and enters the
  loop; the generator then waits at the \<open>yield\<close> with that choice (\<open>Suspended\<close>). It is
  \<open>Finished\<close> once the source is exhausted or an exception has left it.
\<close>

datatype generator = Created | Suspended bool | Finished

datatype 'a outcome = Yield 'a | StopIteration | Raise error

definition iter_loop :: "bool \<Rightarrow> Answers \<Rightarrow> answer outcome \<times> generator \<times> Answers" where
  "iter_loop srt self =
     (case self_answers self of
        [] \<Rightarrow> (StopIteration, Finished, self)
      | answer_set # rest \<Rightarrow>
          (let self' = self\<lparr>self_answers := rest\<rparr> in
           case iter_body srt (self_first_arg_only self') (self_group_atoms self')
                  (self_as_pyasp self') answer_set of
             Inl e \<Rightarrow> (Raise e, Finished, self')
           | Inr a \<Rightarrow> (Yield a, Suspended srt, self')))"

fun gen_next :: "generator \<Rightarrow> Answers \<Rightarrow> answer outcome \<times> generator \<times> Answers" where
  "gen_next Created self = iter_loop (self_sorted self) self"
| "gen_next (Suspended srt) self = iter_loop srt self"
| "gen_next Finished self = (StopIteration, Finished, self)"


section \<open>Traversals\<close>

text \<open>
  A consumer such as \<open>for answer in answers\<close> or \<open>list(answers)\<close> calls \<open>next\<close> on one
  generator until it raises. \<open>traverse\<close> returns the answers received, the exception
  that ended the traversal (\<open>None\<close> for StopIteration) and the object as it is left. A
  yield takes one answer set out of a finite source, so the traversal ends.
\<close>

lemma iter_loop_shrinks:
  "iter_loop srt self = (Yield a, g', self') \<Longrightarrow>
     length (self_answers self') < length (self_answers self)"
  by (auto simp: iter_loop_def Let_def split: list.splits sum.splits)

lemma gen_next_shrinks:
  "gen_next g self = (Yield a, g', self') \<Longrightarrow>
     length (self_answers self') < length (self_answers self)"
  by (cases g) (auto dest: iter_loop_shrinks)

function traverse :: "generator \<Rightarrow> Answers \<Rightarrow> answer list \<times> error option \<times> Answers" where
  "traverse g self =
     (case gen_next g self of
        (Yield a, g', self') \<Rightarrow>
          (case traverse g' self' of (as, e, self'') \<Rightarrow> (a # as, e, self''))
      | (StopIteration, g', self') \<Rightarrow> ([], None, self')
      | (Raise e, g', self') \<Rightarrow> ([], Some e, self'))"
  by pat_completeness auto
termination
  by (relation "measure (\<lambda>(g, self). length (self_answers self))")
     (auto dest: gen_next_shrinks[OF sym])

text \<open>
  A consumer may also set flags while it traverses. \<open>traverse_with sched\<close> is the
  traversal of a consumer that, after each answer it has received, sets the flags of
  the next entry of \<open>sched\<close> and then pulls again.
\<close>

datatype toggle = FirstArgOnly | ByPredicate | AsPyasp | Sorted

fun set_toggle :: "toggle \<Rightarrow> Answers \<Rightarrow> Answers" where
  "set_toggle FirstArgOnly self = first_arg_only self"
| "set_toggle ByPredicate self = by_predicate self"
| "set_toggle AsPyasp self = as_pyasp self"
| "set_toggle Sorted self = sorted_prop self"

lemma self_answers_set_toggle [simp]: "self_answers (set_toggle t self) = self_answers self"
  by (cases t) (simp_all add: first_arg_only_def by_predicate_def as_pyasp_def sorted_prop_def)

lemma self_answers_fold_set_toggle [simp]:
  "self_answers (fold set_toggle ts self) = self_answers self"
  by (induction ts arbitrary: self) simp_all

function traverse_with ::
  "toggle list list \<Rightarrow> generator \<Rightarrow> Answers \<Rightarrow> answer list \<times> error option \<times> Answers" where
  "traverse_with sched g self =
     (case gen_next g self of
        (Yield a, g', self') \<Rightarrow>
          (case traverse_with (tl sched) g' (fold set_toggle (case sched of [] \<Rightarrow> [] | ts # _ \<Rightarrow> ts) self') of
             (as, e, self'') \<Rightarrow> (a # as, e, self''))
      | (StopIteration, g', self') \<Rightarrow> ([], None, self')
      | (Raise e, g', self') \<Rightarrow> ([], Some e, self'))"
  by pat_completeness auto
termination
  by (relation "measure (\<lambda>(sched, g, self). length (self_answers self))")
     (auto dest: gen_next_shrinks[OF sym])

declare traverse.simps [simp del]

declare traverse_with.simps [simp del]

section \<open>Notions used in the statements\<close>

text \<open>The members of a container, and the bucket of a predicate: the arguments of the
  pairs with that predicate, each wrapped into an \<open>Atom\<close> object under \<open>as_pyasp\<close>.\<close>

fun members :: "'a container \<Rightarrow> 'a set" where
  "members (FrozenSet S) = S"
| "members (SortedTuple xs) = set xs"

definition bucket :: "bool \<Rightarrow> (string \<times> pyval) list \<Rightarrow> string \<Rightarrow> pyval set" where
  "bucket as_obj ps p = wrapped as_obj p ` {a. (p, a) \<in> set ps}"

text \<open>An answer all of whose containers are sorted tuples, or all frozensets.\<close>

fun in_order :: "'a::linorder container \<Rightarrow> bool" where
  "in_order (SortedTuple xs) = sorted xs"
| "in_order (FrozenSet S) = False"

fun is_frozenset :: "'a container \<Rightarrow> bool" where
  "is_frozenset (FrozenSet S) = True"
| "is_frozenset (SortedTuple xs) = False"

definition every_container ::
  "((string \<times> pyval) container \<Rightarrow> bool) \<Rightarrow> (pyval container \<Rightarrow> bool) \<Rightarrow> answer \<Rightarrow> bool" where
  "every_container P Q a =
     (case a of Pairs c \<Rightarrow> P c | Atoms c \<Rightarrow> Q c | Dict m \<Rightarrow> (\<forall>c\<in>ran m. Q c))"


text \<open>The number of answer sets a traversal has taken from the source: one for each
  answer, and one more when a pull raised.\<close>

fun pulled :: "answer list \<times> error option \<times> Answers \<Rightarrow> nat" where
  "pulled (as, None, self') = length as"
| "pulled (as, Some e, self') = Suc (length as)"

text \<open>Setting \<open>sorted\<close>, or a flag that is set already, changes none of the three fields
  the loop reads.\<close>

fun without_effect :: "toggle \<Rightarrow> Answers \<Rightarrow> bool" where
  "without_effect FirstArgOnly self = self_first_arg_only self"
| "without_effect ByPredicate self = self_group_atoms self"
| "without_effect AsPyasp self = self_as_pyasp self"
| "without_effect Sorted self = True"

text \<open>An answer set whose pairs \<open>sorted\<close> can order: no two of them are compared by
  values that Python cannot order. Under \<open>first_arg_only\<close> the pairs hold the first
  arguments.\<close>

definition sortable :: "bool \<Rightarrow> (string \<times> pyval list) list \<Rightarrow> bool" where
  "sortable first_only answer_set =
     list_all (\<lambda>x. list_all (orderable_pair x) (pairs first_only answer_set))
       (pairs first_only answer_set)"

section \<open>The decoder\<close>

text \<open>
  \<open>ConceptList\<close> is the class of \<open>test_decoder.py\<close>. Its constructor reads
  \<open>int(concept[0])\<close> and keeps, of the pairs \<open>(nb, arg)\<close> handed to it, the \<open>arg\<close> whose
  \<open>nb\<close> equals that identifier; a pair that is not of length two raises ValueError when
  it is unpacked. \<open>int\<close> of an integer is that integer, \<open>int\<close> of a tuple or of an object
  raises TypeError. What \<open>int\<close> reads in a string is not fixed here: it is the parameter
  \<open>int_str\<close> of the constructor, \<open>None\<close> where \<open>int\<close> raises ValueError, and every
  statement below holds whatever \<open>int_str\<close> is.
\<close>

fun py_int :: "(string \<Rightarrow> int option) \<Rightarrow> pyval \<Rightarrow> error + int" where
  "py_int int_str (VInt n) = Inr n"
| "py_int int_str (VStr s) = (case int_str s of None \<Rightarrow> Inl ValueError | Some n \<Rightarrow> Inr n)"
| "py_int int_str v = Inl TypeError"

record ConceptList =
  self_id :: int
  self_extent :: "pyval set"
  self_intent :: "pyval set"

fun matching :: "int \<Rightarrow> pyval list list \<Rightarrow> error + pyval set" where
  "matching n [] = Inr {}"
| "matching n ([nb, arg] # rest) =
     (case matching n rest of
        Inl e \<Rightarrow> Inl e
      | Inr S \<Rightarrow> Inr (if nb = VInt n then insert arg S else S))"
| "matching n (_ # rest) = Inl ValueError"

definition ConceptList_init ::
  "(string \<Rightarrow> int option) \<Rightarrow> pyval list \<Rightarrow> pyval list list \<Rightarrow> pyval list list
    \<Rightarrow> error + ConceptList" where
  "ConceptList_init int_str concept extent_atoms intent_atoms =
     (case concept of
        [] \<Rightarrow> Inl IndexError
      | c # _ \<Rightarrow>
          (case py_int int_str c of
             Inl e \<Rightarrow> Inl e
           | Inr n \<Rightarrow>
               (case matching n extent_atoms of
                  Inl e \<Rightarrow> Inl e
                | Inr ext \<Rightarrow>
                    (case matching n intent_atoms of
                       Inl e \<Rightarrow> Inl e
                     | Inr itt \<Rightarrow> Inr \<lparr>self_id = n, self_extent = ext, self_intent = itt\<rparr>))))"

text \<open>The three objects of \<open>ConceptList.expected()\<close>, each built by the constructor.\<close>

definition expected :: "(string \<Rightarrow> int option) \<Rightarrow> (error + ConceptList) set" where
  "expected int_str =
     {ConceptList_init int_str [VInt 0]
        [ [VInt 0, VStr ''a''], [VInt 0, VStr ''b''] ]
        [ [VInt 0, VStr ''c''], [VInt 0, VStr ''d''] ],
      ConceptList_init int_str [VInt 1]
        [ [VInt 1, VStr ''b''], [VInt 1, VStr ''e''] ]
        [ [VInt 1, VStr ''f''], [VInt 1, VStr ''g''] ],
      ConceptList_init int_str [VInt 2]
        [ [VInt 2, VStr ''b''] ]
        [ [VInt 2, VStr ''c''], [VInt 2, VStr ''d''], [VInt 2, VStr ''f''], [VInt 2, VStr ''g''] ]}"

text \<open>The atoms of the answer set of the program \<open>ASP_LIST_CONCEPTS\<close> of the test, in one
  of the orders in which a solver may give them.\<close>

definition ASP_LIST_CONCEPTS :: "(string \<times> pyval list) list" where
  "ASP_LIST_CONCEPTS =
     [(''extent'', [VInt 1, VStr ''e'']), (''intent'', [VInt 2, VStr ''g'']),
      (''concept'', [VInt 0]), (''extent'', [VInt 0, VStr ''a'']),
      (''intent'', [VInt 0, VStr ''c'']), (''intent'', [VInt 1, VStr ''f'']),
      (''concept'', [VInt 2]), (''extent'', [VInt 2, VStr ''b'']),
      (''extent'', [VInt 0, VStr ''b'']), (''intent'', [VInt 2, VStr ''c'']),
      (''intent'', [VInt 0, VStr ''d'']), (''extent'', [VInt 1, VStr ''b'']),
      (''concept'', [VInt 1]), (''intent'', [VInt 1, VStr ''g'']),
      (''intent'', [VInt 2, VStr ''d'']), (''intent'', [VInt 2, VStr ''f''])]"

text \<open>
  Modelled from the spec: the function \<open>decode\<close> and the module it lives in are not part
  of the sources; the test only calls it. Section 4.2 of the specification is followed:
  a decoder declares, for each parameter of its constructor, the predicate of that
  name and whether it takes exactly one atom or all of them; atoms of other predicates
  are ignored; the atoms are grouped by their first argument (or form one group when
  the decoder declares no key); a group in which a parameter that takes exactly one
  atom does not find exactly one is reported as a failure of that group, and the other
  groups are still decoded. The specification leaves open the key of an atom without
  arguments; here such atoms form a group of their own.
\<close>

datatype arity = One | All

datatype argument = Single "pyval list" | Many "pyval list list"

record 'obj decoder =
  parameters :: "(string \<times> arity) list"
  keyed :: bool
  construct :: "argument list \<Rightarrow> error + 'obj"

text \<open>Modelled from the spec: the key of an atom, its first argument when the decoder
  groups by key.\<close>

definition group_key :: "bool \<Rightarrow> string \<times> pyval list \<Rightarrow> pyval option" where
  "group_key by_key atom =
     (if by_key then (case snd atom of [] \<Rightarrow> None | a # _ \<Rightarrow> Some a) else None)"

text \<open>Modelled from the spec: what the group with key \<open>k\<close> holds for one parameter, if
  its arity is satisfied.\<close>

definition collect ::
  "bool \<Rightarrow> (string \<times> pyval list) list \<Rightarrow> pyval option \<Rightarrow> string \<times> arity \<Rightarrow> argument option" where
  "collect by_key atoms k param =
     (let found = map snd (filter (\<lambda>atom. fst atom = fst param \<and> group_key by_key atom = k) atoms)
      in case snd param of
           All \<Rightarrow> Some (Many found)
         | One \<Rightarrow> (case found of [args] \<Rightarrow> Some (Single args) | _ \<Rightarrow> None))"

fun collect_all ::
  "bool \<Rightarrow> (string \<times> pyval list) list \<Rightarrow> pyval option \<Rightarrow> (string \<times> arity) list
    \<Rightarrow> argument list option" where
  "collect_all by_key atoms k [] = Some []"
| "collect_all by_key atoms k (param # rest) =
     (case collect by_key atoms k param of
        None \<Rightarrow> None
      | Some a \<Rightarrow> map_option ((#) a) (collect_all by_key atoms k rest))"

text \<open>Modelled from the spec: the object of one group, or the failure of that group.\<close>

definition decode_group ::
  "'obj decoder \<Rightarrow> (string \<times> pyval list) list \<Rightarrow> pyval option \<Rightarrow> error + 'obj" where
  "decode_group d atoms k =
     (case collect_all (keyed d) atoms k (parameters d) of
        None \<Rightarrow> Inl ArityUnsatisfied
      | Some args \<Rightarrow> construct d args)"

text \<open>Modelled from the spec: \<open>decode\<close>, one result for each group of the atoms whose
  predicate the decoder declares.\<close>

definition decode ::
  "'obj decoder \<Rightarrow> (string \<times> pyval list) list \<Rightarrow> (error + 'obj) list" where
  "decode d atoms =
     (let relevant = filter (\<lambda>atom. fst atom \<in> fst ` set (parameters d)) atoms
      in map (decode_group d relevant) (remdups (map (group_key (keyed d)) relevant)))"

text \<open>The decoder of the test: \<open>def __init__(self, concept:1, extent:all, intent:all)\<close>.\<close>

definition ConceptList_decoder :: "(string \<Rightarrow> int option) \<Rightarrow> ConceptList decoder" where
  "ConceptList_decoder int_str =
     \<lparr>parameters = [(''concept'', One), (''extent'', All), (''intent'', All)],
      keyed = True,
      construct = (\<lambda>args. case args of
          [Single concept, Many extent_atoms, Many intent_atoms] \<Rightarrow>
            ConceptList_init int_str concept extent_atoms intent_atoms
        | _ \<Rightarrow> Inl ArityUnsatisfied)\<rparr>"

text \<open>
  The notions of the statement about the decoder. An answer set has the shape of the
  test when each \<open>concept\<close> atom has one integer argument, and each \<open>extent\<close> and \<open>intent\<close>
  atom an integer and one further argument. Its identifiers are the integers that come
  first in these atoms, and the concept of an identifier \<open>n\<close> has the extent
  \<open>{b. extent(n, b)}\<close> and the intent \<open>{b. intent(n, b)}\<close>. The atoms of a predicate are all the
  argument lists the answer set has for it, whatever their identifier.
\<close>

definition concept_atoms :: "(string \<times> pyval list) list \<Rightarrow> bool" where
  "concept_atoms atoms =
     (\<forall>atom\<in>set atoms.
        (fst atom = ''concept'' \<longrightarrow> (\<exists>n. snd atom = [VInt n])) \<and>
        (fst atom = ''extent'' \<or> fst atom = ''intent'' \<longrightarrow> (\<exists>n b. snd atom = [VInt n, b])))"

definition concept_ids :: "(string \<times> pyval list) list \<Rightarrow> int set" where
  "concept_ids atoms =
     {n. \<exists>p rest. p \<in> {''concept'', ''extent'', ''intent''} \<and> (p, VInt n # rest) \<in> set atoms}"

definition concept_of :: "(string \<times> pyval list) list \<Rightarrow> int \<Rightarrow> ConceptList" where
  "concept_of atoms n =
     \<lparr>self_id = n,
      self_extent = {b. (''extent'', [VInt n, b]) \<in> set atoms},
      self_intent = {b. (''intent'', [VInt n, b]) \<in> set atoms}\<rparr>"

definition atoms_of :: "string \<Rightarrow> (string \<times> pyval list) list \<Rightarrow> pyval list list" where
  "atoms_of p atoms = map snd (filter (\<lambda>atom. fst atom = p) atoms)"

definition relevant_atoms :: "(string \<times> pyval list) list \<Rightarrow> (string \<times> pyval list) list" where
  "relevant_atoms atoms =
     filter (\<lambda>atom. fst atom \<in> {''concept'', ''extent'', ''intent''}) atoms"

section \<open>Properties of the loop body\<close>

text \<open>Comparing a value with itself never raises.\<close>

lemma orderable_seq_refl: "orderable_seq xs xs"
  by (induction xs) auto

lemma orderable_refl: "orderable x x"
  by (induction x) (auto simp: orderable_seq_refl)

subsection \<open>Containers\<close>

lemma set_elements: "finite S \<Longrightarrow> set (elements S) = S"
  by (simp add: elements_def)

lemma builder_members: "builder srt ok it = Inr c \<Longrightarrow> members c = set it"
  by (auto simp: builder_def sorted_tuple_def split: if_splits)

lemma builder_unsorted: "builder False ok it = Inr (FrozenSet (set it))"
  by (simp add: builder_def)

lemma builder_sorted: "builder True ok it = Inr c \<Longrightarrow> c = SortedTuple (sort it)"
  by (auto simp: builder_def sorted_tuple_def split: if_splits)

lemma set_iterate_builder:
  "builder srt ok it = Inr c \<Longrightarrow> set (iterate c) = set it"
  by (auto simp: builder_def sorted_tuple_def set_elements split: if_splits)

subsection \<open>The grouping loop and the dict comprehension\<close>

text \<open>After the loop, \<open>mapping\<close> has one key for each predicate of the pairs, and the
  bucket of that predicate as its value; it depends on the set of the pairs only, not
  on the order in which the container is iterated.\<close>

lemma finite_bucket: "finite (bucket as_obj ps p)"
proof -
  have "{a. (p, a) \<in> set ps} \<subseteq> snd ` set ps" by force
  then have "finite {a. (p, a) \<in> set ps}" by (rule finite_subset) simp
  then show ?thesis by (simp add: bucket_def)
qed

lemma map_of_group_atoms:
  "map_of (group_atoms as_obj ps m) p =
     (if p \<in> fst ` set ps \<or> p \<in> fst ` set m
      then Some ((case map_of m p of None \<Rightarrow> {} | Some S \<Rightarrow> S) \<union> bucket as_obj ps p)
      else None)"
proof (induction ps arbitrary: m)
  case Nil
  then show ?case
    by (auto simp: bucket_def map_of_eq_None_iff[symmetric] split: option.splits)
next
  case (Cons a ps)
  obtain q args where a: "a = (q, args)" by (cases a)
  show ?case
    unfolding a group_atoms.simps Cons.IH
    by (auto simp: map_of_map_default dom_map_default bucket_def split: option.splits)
qed

lemma map_of_buckets:
  "buckets srt m = Inr d \<Longrightarrow>
     (case map_of m p of None \<Rightarrow> map_of d p = None
      | Some S \<Rightarrow> \<exists>c. map_of d p = Some c \<and> builder srt orderable (elements S) = Inr c)"
  by (induction m arbitrary: d) (auto split: sum.splits option.splits)

lemma buckets_unsorted:
  "buckets False m = Inr (map (\<lambda>(p, S). (p, FrozenSet (set (elements S)))) m)"
  by (induction m) (auto simp: builder_unsorted)

lemma fst_set_pairs: "fst ` set (pairs fa A) = fst ` set A"
  by (induction A) (auto simp: pairs_def)

lemma bucket_cong: "set ps = set ps' \<Longrightarrow> bucket as_obj ps p = bucket as_obj ps' p"
  by (simp add: bucket_def)

lemma in_pairs:
  "(p, a) \<in> set (pairs fa A) \<longleftrightarrow> (\<exists>args. (p, args) \<in> set A \<and> a = arguments fa args)"
  by (induction A) (auto simp: pairs_def)

lemma bucket_pairs:
  "bucket as_obj (pairs fa A) p =
     {wrapped as_obj p (arguments fa args) | args. (p, args) \<in> set A}"
  by (auto simp: bucket_def in_pairs)

lemma group_atoms_set:
  "set ps = set ps' \<Longrightarrow> map_of (group_atoms as_obj ps []) = map_of (group_atoms as_obj ps' [])"
  by (rule ext) (simp add: map_of_group_atoms bucket_def)

lemma builder_elements:
  "finite S \<Longrightarrow> builder srt ok (elements S) = Inr c \<Longrightarrow>
     c = (if srt then SortedTuple (sorted_list_of_set S) else FrozenSet S)"
  by (auto simp: builder_def sorted_tuple_def elements_def sorted_sort_id split: if_splits)

lemma iter_body_grouped:
  assumes "iter_body srt fa True as_obj A = Inr out"
  shows "\<exists>m. out = Dict m \<and>
    (\<forall>p. m p = (if p \<in> fst ` set A
                then Some (if srt then SortedTuple (sorted_list_of_set (bucket as_obj (pairs fa A) p))
                           else FrozenSet (bucket as_obj (pairs fa A) p))
                else None))"
proof -
  from assms obtain built d where
    built: "builder srt orderable_pair (pairs fa A) = Inr built" and
    d: "buckets srt (group_atoms as_obj (iterate built) []) = Inr d" and
    out: "out = Dict (map_of d)"
    by (auto simp: iter_body_def split: sum.splits)
  have set_built: "set (iterate built) = set (pairs fa A)"
    using built by (rule set_iterate_builder)
  have "map_of d p = (if p \<in> fst ` set A
                then Some (if srt then SortedTuple (sorted_list_of_set (bucket as_obj (pairs fa A) p))
                           else FrozenSet (bucket as_obj (pairs fa A) p))
                else None)" for p
  proof (cases "p \<in> fst ` set A")
    case True
    then have "map_of (group_atoms as_obj (iterate built) []) p = Some (bucket as_obj (pairs fa A) p)"
      by (simp add: map_of_group_atoms set_built fst_set_pairs bucket_def)
    with map_of_buckets[OF d, of p] obtain c where
      c: "map_of d p = Some c"
         "builder srt orderable (elements (bucket as_obj (pairs fa A) p)) = Inr c"
      by auto
    from builder_elements[OF finite_bucket c(2)] c(1) True show ?thesis by simp
  next
    case False
    then have "map_of (group_atoms as_obj (iterate built) []) p = None"
      by (simp add: map_of_group_atoms set_built fst_set_pairs)
    with map_of_buckets[OF d, of p] False show ?thesis by simp
  qed
  with out show ?thesis by blast
qed

subsection \<open>Without \<open>sorted\<close> the loop body never raises\<close>

lemma sorted_tuple_iff:
  "sorted_tuple ok it =
     (if \<forall>x\<in>set it. \<forall>y\<in>set it. ok x y then Inr (SortedTuple (sort it)) else Inl TypeError)"
  by (simp add: sorted_tuple_def list_all_iff)

lemma iter_body_unsorted_plain:
  "iter_body False fa False False A = Inr (Pairs (FrozenSet (set (pairs fa A))))"
  by (simp add: iter_body_def builder_unsorted)

lemma iter_body_unsorted_atoms:
  "iter_body False fa False True A =
     Inr (Atoms (FrozenSet ((\<lambda>(p, a). VAtom p a) ` set (pairs fa A))))"
  by (simp add: iter_body_def builder_unsorted set_elements)

lemma iter_body_unsorted_grouped:
  "iter_body False fa True as_obj A =
     Inr (Dict (\<lambda>p. if p \<in> fst ` set A then Some (FrozenSet (bucket as_obj (pairs fa A) p))
                     else None))"
proof -
  have "\<exists>out. iter_body False fa True as_obj A = Inr out"
    by (simp add: iter_body_def builder_unsorted buckets_unsorted)
  then obtain out where out: "iter_body False fa True as_obj A = Inr out" ..
  from iter_body_grouped[OF out] obtain m where
    "out = Dict m"
    "\<And>p. m p = (if p \<in> fst ` set A then Some (FrozenSet (bucket as_obj (pairs fa A) p)) else None)"
    by auto
  then have "out = Dict (\<lambda>p. if p \<in> fst ` set A then Some (FrozenSet (bucket as_obj (pairs fa A) p))
                     else None)"
    by (simp add: fun_eq_iff)
  with out show ?thesis by simp
qed

subsection \<open>With \<open>sorted\<close> the loop body raises exactly when two pairs cannot be ordered\<close>

lemma distinct_group_atoms:
  "distinct (map fst m) \<Longrightarrow> distinct (map fst (group_atoms as_obj ps m))"
  by (induction ps arbitrary: m) (auto simp: distinct_map_default)

lemma group_atoms_entries:
  assumes "(p, S) \<in> set (group_atoms as_obj ps [])"
  shows "p \<in> fst ` set ps \<and> S = bucket as_obj ps p"
proof -
  have "distinct (map fst (group_atoms as_obj ps []))"
    by (rule distinct_group_atoms) simp
  with assms have "map_of (group_atoms as_obj ps []) p = Some S"
    by simp
  then show ?thesis
    by (simp add: map_of_group_atoms split: if_splits)
qed

lemma buckets_sorted_ok:
  "\<forall>e\<in>set m. finite (snd e) \<and> (\<forall>x\<in>snd e. \<forall>y\<in>snd e. orderable x y) \<Longrightarrow>
     \<exists>d. buckets True m = Inr d"
proof (induction m)
  case Nil
  then show ?case by simp
next
  case (Cons a m)
  obtain p S where a: "a = (p, S)" by (cases a)
  from Cons.prems have S: "finite S" "\<forall>x\<in>S. \<forall>y\<in>S. orderable x y"
    by (simp_all add: a)
  from Cons.IH Cons.prems obtain d where "buckets True m = Inr d"
    by auto
  with S show ?case
    by (simp add: a builder_def sorted_tuple_iff set_elements)
qed

lemma orderable_wrapped:
  "orderable (wrapped as_obj p a) (wrapped as_obj p b) = orderable a b"
  by (simp add: wrapped_def)

lemma orderable_bucket:
  assumes "\<forall>x\<in>set ps. \<forall>y\<in>set ps. orderable_pair x y"
    and "x \<in> bucket as_obj ps p" and "y \<in> bucket as_obj ps p"
  shows "orderable x y"
  using assms by (fastforce simp: bucket_def orderable_pair_def orderable_wrapped)

lemma iter_body_sorted_ok:
  assumes "\<forall>x\<in>set (pairs fa A). \<forall>y\<in>set (pairs fa A). orderable_pair x y"
  shows "\<exists>out. iter_body True fa grouped as_obj A = Inr out"
proof -
  let ?ps = "pairs fa A"
  have built: "builder True orderable_pair ?ps = Inr (SortedTuple (sort ?ps))"
    using assms by (simp add: builder_def sorted_tuple_iff)
  have "\<exists>d. buckets True (group_atoms as_obj (sort ?ps) []) = Inr d"
  proof (rule buckets_sorted_ok, rule ballI)
    fix e
    assume e: "e \<in> set (group_atoms as_obj (sort ?ps) [])"
    obtain p S where eq: "e = (p, S)" by (cases e)
    from e have S: "S = bucket as_obj (sort ?ps) p"
      by (simp add: eq group_atoms_entries)
    have "bucket as_obj (sort ?ps) p = bucket as_obj ?ps p"
      by (rule bucket_cong) simp
    with S assms show "finite (snd e) \<and> (\<forall>x\<in>snd e. \<forall>y\<in>snd e. orderable x y)"
      by (auto simp: eq finite_bucket intro: orderable_bucket)
  qed
  moreover have "orderable (VAtom p a) (VAtom q b)"
    if "(p, a) \<in> set ?ps" "(q, b) \<in> set ?ps" for p a q b
    using assms that by (force simp: orderable_pair_def)
  then have "\<exists>c. builder True orderable (map (\<lambda>(pred, args). VAtom pred args) (sort ?ps)) = Inr c"
    by (auto simp: builder_def sorted_tuple_iff)
  ultimately show ?thesis
    by (auto simp: iter_body_def built)
qed

lemma iter_body_sorted_error:
  "iter_body True fa grouped as_obj A = Inl TypeError \<longleftrightarrow>
     \<not> (\<forall>x\<in>set (pairs fa A). \<forall>y\<in>set (pairs fa A). orderable_pair x y)"
proof
  assume "iter_body True fa grouped as_obj A = Inl TypeError"
  with iter_body_sorted_ok[of fa A grouped as_obj]
  show "\<not> (\<forall>x\<in>set (pairs fa A). \<forall>y\<in>set (pairs fa A). orderable_pair x y)"
    by auto
next
  assume "\<not> (\<forall>x\<in>set (pairs fa A). \<forall>y\<in>set (pairs fa A). orderable_pair x y)"
  then have "builder True orderable_pair (pairs fa A) = Inl TypeError"
    by (simp add: builder_def sorted_tuple_iff)
  then show "iter_body True fa grouped as_obj A = Inl TypeError"
    by (simp add: iter_body_def)
qed

subsection \<open>The members of an answer\<close>

lemma iter_body_unsorted_ok: "\<exists>out. iter_body False fa grouped as_obj A = Inr out"
  by (cases grouped; cases as_obj)
     (simp_all add: iter_body_unsorted_plain iter_body_unsorted_atoms iter_body_unsorted_grouped)

lemma iter_body_plain:
  "iter_body srt fa False False A = Inr out \<Longrightarrow>
     \<exists>c. out = Pairs c \<and> members c = set (pairs fa A)"
  by (auto simp: iter_body_def builder_members split: sum.splits)

lemma iter_body_atoms:
  "iter_body srt fa False True A = Inr out \<Longrightarrow>
     \<exists>c. out = Atoms c \<and> members c = (\<lambda>(p, a). VAtom p a) ` set (pairs fa A)"
  by (auto simp: iter_body_def builder_members set_iterate_builder split: sum.splits)

lemma set_pairs_first:
  "set (pairs True A) = (\<lambda>(p, args). (p, first_arg args)) ` set A"
  by (auto simp: pairs_def arguments_def)

lemma atoms_of_pairs:
  "(\<lambda>(p, a). VAtom p a) ` set (pairs fa A) =
     {VAtom p (arguments fa args) | p args. (p, args) \<in> set A}"
proof (intro set_eqI iffI)
  fix v
  assume "v \<in> (\<lambda>(p, a). VAtom p a) ` set (pairs fa A)"
  then obtain p a where "(p, a) \<in> set (pairs fa A)" "v = VAtom p a"
    by auto
  then show "v \<in> {VAtom p (arguments fa args) | p args. (p, args) \<in> set A}"
    by (auto simp: in_pairs)
next
  fix v
  assume "v \<in> {VAtom p (arguments fa args) | p args. (p, args) \<in> set A}"
  then obtain p args where "(p, args) \<in> set A" "v = VAtom p (arguments fa args)"
    by auto
  then have "(p, arguments fa args) \<in> set (pairs fa A)"
    by (auto simp: in_pairs)
  with \<open>v = VAtom p (arguments fa args)\<close> show "v \<in> (\<lambda>(p, a). VAtom p a) ` set (pairs fa A)"
    by (metis (mono_tags, lifting) case_prod_conv image_eqI)
qed

lemma atoms_of_pairs_first:
  "(\<lambda>(p, a). VAtom p a) ` set (pairs True A) = (\<lambda>(p, args). VAtom p (first_arg args)) ` set A"
  by (simp add: set_pairs_first image_image case_prod_beta)

lemma first_arg_shown:
  assumes "\<And>p args. (p, args) \<in> set A \<Longrightarrow> P p (first_arg args)"
  shows "(\<forall>p x xs. (p, x # xs) \<in> set A \<longrightarrow> P p x) \<and> (\<forall>q. (q, []) \<in> set A \<longrightarrow> P q (VTuple []))"
proof (intro conjI allI impI)
  fix p x xs assume "(p, x # xs) \<in> set A"
  from assms[OF this] show "P p x" by (simp add: first_arg_def)
next
  fix q assume "(q, []) \<in> set A"
  from assms[OF this] show "P q (VTuple [])" by (simp add: first_arg_def)
qed

lemma singleton_list: "length xs = 1 \<Longrightarrow> xs ! 0 = v \<Longrightarrow> xs = [v]"
  by (cases xs) auto

subsection \<open>The order in which atoms and members are enumerated\<close>

lemma sort_mset: "mset xs = mset ys \<Longrightarrow> sort xs = sort ys"
  by (metis mset_sort properties_for_sort sorted_sort)

lemma builder_mset: "mset xs = mset ys \<Longrightarrow> builder srt ok xs = builder srt ok ys"
proof -
  assume eq: "mset xs = mset ys"
  then have "set xs = set ys" by (rule mset_eq_setD)
  with sort_mset[OF eq] show ?thesis
    by (simp add: builder_def sorted_tuple_iff)
qed

lemma builder_enumeration:
  assumes "distinct xs"
  shows "builder srt ok xs = builder srt ok (elements (set xs))"
proof -
  from assms have "mset xs = mset (elements (set xs))"
    by (simp add: elements_def sorted_list_of_set_sort_remdups distinct_remdups_id)
  then show ?thesis
    by (rule builder_mset)
qed

lemma iter_body_mset:
  assumes "mset A = mset B"
  shows "iter_body srt fa grouped as_obj A = iter_body srt fa grouped as_obj B"
proof -
  from assms have "mset (pairs fa A) = mset (pairs fa B)"
    by (simp add: pairs_def)
  then have "builder srt orderable_pair (pairs fa A) = builder srt orderable_pair (pairs fa B)"
    by (rule builder_mset)
  then show ?thesis
    by (simp add: iter_body_def)
qed

subsection \<open>The containers of an answer\<close>

lemma iter_body_sorted_in_order:
  assumes "iter_body True fa grouped as_obj A = Inr a"
  shows "every_container in_order in_order a"
proof (cases grouped)
  case True
  from assms True have "iter_body True fa True as_obj A = Inr a" by simp
  from iter_body_grouped[OF this] obtain m where
    m: "a = Dict m"
       "\<And>p. m p = (if p \<in> fst ` set A
                then Some (if True then SortedTuple (sorted_list_of_set (bucket as_obj (pairs fa A) p))
                           else FrozenSet (bucket as_obj (pairs fa A) p))
                else None)"
    by blast
  have "in_order c" if "c \<in> ran m" for c
  proof -
    from that obtain p where "m p = Some c" by (auto simp: ran_def)
    then show ?thesis by (auto simp: m(2) split: if_splits)
  qed
  then show ?thesis by (simp add: every_container_def m(1))
next
  case False
  with assms show ?thesis
    by (auto simp: iter_body_def every_container_def split: sum.splits if_splits
        dest!: builder_sorted)
qed

lemma iter_body_unsorted_frozenset:
  assumes "iter_body False fa grouped as_obj A = Inr a"
  shows "every_container is_frozenset is_frozenset a"
  using assms
  by (cases grouped; cases as_obj)
     (auto simp: iter_body_unsorted_plain iter_body_unsorted_atoms iter_body_unsorted_grouped
        every_container_def ran_def split: if_splits)

section \<open>Properties of traversals\<close>

subsection \<open>One pull after the other\<close>

lemma traverse_Created: "traverse Created self = traverse (Suspended (self_sorted self)) self"
  by (subst (1 2) traverse.simps) simp

lemma traverse_Finished: "traverse Finished self = ([], None, self)"
  by (subst traverse.simps) simp

lemma traverse_Suspended:
  "self_answers self = [] \<Longrightarrow> traverse (Suspended srt) self = ([], None, self)"
  "self_answers self = A # rest \<Longrightarrow>
     iter_body srt (self_first_arg_only self) (self_group_atoms self) (self_as_pyasp self) A = Inl err
     \<Longrightarrow> traverse (Suspended srt) self = ([], Some err, self\<lparr>self_answers := rest\<rparr>)"
  "self_answers self = A # rest \<Longrightarrow>
     iter_body srt (self_first_arg_only self) (self_group_atoms self) (self_as_pyasp self) A = Inr a
     \<Longrightarrow> traverse (Suspended srt) self =
          (case traverse (Suspended srt) (self\<lparr>self_answers := rest\<rparr>) of
             (as, e, self'') \<Rightarrow> (a # as, e, self''))"
  by (subst traverse.simps, simp add: iter_loop_def)+

subsection \<open>The \<open>k\<close>-th answer is the loop body on the \<open>k\<close>-th answer set\<close>

lemma traverse_Suspended_nth:
  "k < length (fst (traverse (Suspended srt) self)) \<Longrightarrow>
     k < length (self_answers self) \<and>
     iter_body srt (self_first_arg_only self) (self_group_atoms self) (self_as_pyasp self)
       (self_answers self ! k) = Inr (fst (traverse (Suspended srt) self) ! k)"
proof (induction "self_answers self" arbitrary: self k)
  case Nil
  then show ?case
    by (simp add: traverse_Suspended(1))
next
  case (Cons A rest)
  let ?self' = "self\<lparr>self_answers := rest\<rparr>"
  have rest: "rest = self_answers ?self'" by simp
  have src: "self_answers self = A # rest" using Cons.hyps(2) by simp
  show ?case
  proof (cases "iter_body srt (self_first_arg_only self) (self_group_atoms self)
                  (self_as_pyasp self) A")
    case (Inl e)
    with Cons.prems show ?thesis
      by (simp add: traverse_Suspended(2)[OF src])
  next
    case (Inr a)
    have unf: "fst (traverse (Suspended srt) self) = a # fst (traverse (Suspended srt) ?self')"
      by (simp add: traverse_Suspended(3)[OF src Inr] case_prod_beta)
    show ?thesis
    proof (cases k)
      case 0
      with Inr src unf show ?thesis by simp
    next
      case (Suc j)
      with Cons.prems unf have "j < length (fst (traverse (Suspended srt) ?self'))"
        by simp
      from Cons.hyps(1)[OF rest this] Suc unf src show ?thesis
        by simp
    qed
  qed
qed

lemma traverse_nth:
  "k < length (fst (traverse Created self)) \<Longrightarrow>
     k < length (self_answers self) \<and>
     iter_body (self_sorted self) (self_first_arg_only self) (self_group_atoms self)
       (self_as_pyasp self) (self_answers self ! k) = Inr (fst (traverse Created self) ! k)"
  unfolding traverse_Created by (rule traverse_Suspended_nth)

lemma traverse_Suspended_unsorted_length:
  "length (fst (traverse (Suspended False) self)) = length (self_answers self)"
proof (induction "self_answers self" arbitrary: self)
  case Nil
  then show ?case by (simp add: traverse_Suspended(1))
next
  case (Cons A rest)
  have src: "self_answers self = A # rest" using Cons.hyps(2) by simp
  obtain a where a: "iter_body False (self_first_arg_only self) (self_group_atoms self)
      (self_as_pyasp self) A = Inr a"
    using iter_body_unsorted_ok by blast
  have "rest = self_answers (self\<lparr>self_answers := rest\<rparr>)" by simp
  from Cons.hyps(1)[OF this] show ?case
    by (simp add: traverse_Suspended(3)[OF src a] src case_prod_beta)
qed

lemma traverse_unsorted_length:
  "\<not> self_sorted self \<Longrightarrow> length (fst (traverse Created self)) = length (self_answers self)"
  by (simp add: traverse_Created traverse_Suspended_unsorted_length)

lemma traverse_grouped:
  assumes "self_group_atoms self" and "k < length (fst (traverse Created self))"
  shows "\<exists>m. fst (traverse Created self) ! k = Dict m \<and>
           dom m = fst ` set (self_answers self ! k) \<and>
           (\<forall>p\<in>fst ` set (self_answers self ! k). \<exists>c. m p = Some c \<and>
              members c =
                {wrapped (self_as_pyasp self) p (arguments (self_first_arg_only self) args)
                 | args. (p, args) \<in> set (self_answers self ! k)})"
proof -
  let ?A = "self_answers self ! k"
  from traverse_nth[OF assms(2)] assms(1)
  have "iter_body (self_sorted self) (self_first_arg_only self) True (self_as_pyasp self) ?A =
          Inr (fst (traverse Created self) ! k)"
    by simp
  from iter_body_grouped[OF this] obtain m where
    m: "fst (traverse Created self) ! k = Dict m"
       "\<And>p. m p = (if p \<in> fst ` set ?A
                then Some (if self_sorted self then SortedTuple (sorted_list_of_set
                       (bucket (self_as_pyasp self) (pairs (self_first_arg_only self) ?A) p))
                     else FrozenSet (bucket (self_as_pyasp self) (pairs (self_first_arg_only self) ?A) p))
                else None)"
    by blast
  have "dom m = fst ` set ?A"
    by (auto simp: m(2) dom_def)
  moreover have "\<exists>c. m p = Some c \<and> members c =
                {wrapped (self_as_pyasp self) p (arguments (self_first_arg_only self) args)
                 | args. (p, args) \<in> set ?A}" if "p \<in> fst ` set ?A" for p
    unfolding bucket_pairs[symmetric] using that by (simp add: m(2) finite_bucket)
  ultimately show ?thesis using m(1) by blast
qed

lemma traverse_unsorted_nth:
  assumes "\<not> self_sorted self" and "k < length (self_answers self)"
  shows "iter_body False (self_first_arg_only self) (self_group_atoms self) (self_as_pyasp self)
           (self_answers self ! k) = Inr (fst (traverse Created self) ! k)"
proof -
  from assms have "k < length (fst (traverse Created self))"
    by (simp add: traverse_unsorted_length)
  from traverse_nth[OF this] assms(1) show ?thesis by simp
qed

subsection \<open>Sources with the same atoms\<close>

lemma traverse_Suspended_cong:
  assumes "self_first_arg_only s1 = self_first_arg_only s2"
    and "self_group_atoms s1 = self_group_atoms s2"
    and "self_as_pyasp s1 = self_as_pyasp s2"
    and "list_all2 (\<lambda>A B. mset A = mset B) (self_answers s1) (self_answers s2)"
  shows "fst (traverse (Suspended srt) s1) = fst (traverse (Suspended srt) s2) \<and>
         fst (snd (traverse (Suspended srt) s1)) = fst (snd (traverse (Suspended srt) s2))"
  using assms
proof (induction "self_answers s1" arbitrary: s1 s2)
  case Nil
  then have "self_answers s1 = []" "self_answers s2 = []" by simp_all
  then show ?case by (simp add: traverse_Suspended(1))
next
  case (Cons A rest)
  from Cons.hyps(2) have src1: "self_answers s1 = A # rest" by simp
  with Cons.prems(4) have "list_all2 (\<lambda>A B. mset A = mset B) (A # rest) (self_answers s2)"
    by simp
  then obtain B rest' where src2: "self_answers s2 = B # rest'" and
    AB: "mset A = mset B" and rest: "list_all2 (\<lambda>A B. mset A = mset B) rest rest'"
    by (auto simp: list_all2_Cons1)
  note src = src1 src2
  let ?s1 = "s1\<lparr>self_answers := rest\<rparr>" and ?s2 = "s2\<lparr>self_answers := rest'\<rparr>"
  have IH: "fst (traverse (Suspended srt) ?s1) = fst (traverse (Suspended srt) ?s2) \<and>
         fst (snd (traverse (Suspended srt) ?s1)) = fst (snd (traverse (Suspended srt) ?s2))"
    using Cons.hyps(1)[of ?s1 ?s2] Cons.prems(1-3) rest by simp
  have body: "iter_body srt (self_first_arg_only s1) (self_group_atoms s1) (self_as_pyasp s1) A =
        iter_body srt (self_first_arg_only s2) (self_group_atoms s2) (self_as_pyasp s2) B"
    using Cons.prems(1-3) iter_body_mset[OF AB] by simp
  show ?case
  proof (cases "iter_body srt (self_first_arg_only s1) (self_group_atoms s1) (self_as_pyasp s1) A")
    case (Inl e)
    with body have "iter_body srt (self_first_arg_only s2) (self_group_atoms s2) (self_as_pyasp s2) B
        = Inl e" by simp
    from traverse_Suspended(2)[OF src(1) Inl] traverse_Suspended(2)[OF src(2) this]
    show ?thesis by simp
  next
    case (Inr a)
    with body have "iter_body srt (self_first_arg_only s2) (self_group_atoms s2) (self_as_pyasp s2) B
        = Inr a" by simp
    from traverse_Suspended(3)[OF src(1) Inr] traverse_Suspended(3)[OF src(2) this] IH
    show ?thesis by (simp add: case_prod_beta)
  qed
qed

subsection \<open>What a traversal leaves in the source\<close>

lemma gen_next_takes_head:
  "gen_next g self = (Yield a, g', self') \<Longrightarrow>
     self_answers self \<noteq> [] \<and> self_answers self' = tl (self_answers self)"
  by (cases g) (auto simp: iter_loop_def Let_def split: list.splits sum.splits)

lemma traverse_Suspended_source:
  "self_answers (snd (snd (traverse (Suspended srt) self))) =
     drop (pulled (traverse (Suspended srt) self)) (self_answers self) \<and>
   pulled (traverse (Suspended srt) self) \<le> length (self_answers self) \<and>
   (fst (snd (traverse (Suspended srt) self)) = None \<longrightarrow>
      length (fst (traverse (Suspended srt) self)) = length (self_answers self))"
proof (induction "self_answers self" arbitrary: self)
  case Nil
  then show ?case by (simp add: traverse_Suspended(1))
next
  case (Cons A rest)
  let ?self' = "self\<lparr>self_answers := rest\<rparr>"
  have src: "self_answers self = A # rest" using Cons.hyps(2) by simp
  show ?case
  proof (cases "iter_body srt (self_first_arg_only self) (self_group_atoms self)
                  (self_as_pyasp self) A")
    case (Inl e)
    show ?thesis
      by (simp add: traverse_Suspended(2)[OF src Inl] src)
  next
    case (Inr a)
    obtain as e s where T: "traverse (Suspended srt) ?self' = (as, e, s)"
      by (cases "traverse (Suspended srt) ?self'")
    from Cons.hyps(1)[of ?self'] T
    have "self_answers s = drop (pulled (as, e, s)) rest \<and> pulled (as, e, s) \<le> length rest \<and>
        (e = None \<longrightarrow> length as = length rest)"
      by simp
    then show ?thesis
      by (cases e) (simp_all add: traverse_Suspended(3)[OF src Inr] T src)
  qed
qed

subsection \<open>Flags set during a traversal\<close>

lemma traverse_with_Created:
  "traverse_with sched Created self = traverse_with sched (Suspended (self_sorted self)) self"
  by (subst (1 2) traverse_with.simps) simp

lemma traverse_with_Suspended:
  "self_answers self = [] \<Longrightarrow> traverse_with sched (Suspended srt) self = ([], None, self)"
  "self_answers self = A # rest \<Longrightarrow>
     iter_body srt (self_first_arg_only self) (self_group_atoms self) (self_as_pyasp self) A = Inl err
     \<Longrightarrow> traverse_with sched (Suspended srt) self = ([], Some err, self\<lparr>self_answers := rest\<rparr>)"
  "self_answers self = A # rest \<Longrightarrow>
     iter_body srt (self_first_arg_only self) (self_group_atoms self) (self_as_pyasp self) A = Inr a
     \<Longrightarrow> traverse_with sched (Suspended srt) self =
          (case traverse_with (tl sched) (Suspended srt)
                  (fold set_toggle (case sched of [] \<Rightarrow> [] | ts # _ \<Rightarrow> ts)
                     (self\<lparr>self_answers := rest\<rparr>)) of
             (as, e, self'') \<Rightarrow> (a # as, e, self''))"
  by (subst traverse_with.simps, simp add: iter_loop_def)+

lemma set_toggle_without_effect:
  "without_effect t self \<Longrightarrow>
     self_first_arg_only (set_toggle t self) = self_first_arg_only self \<and>
     self_group_atoms (set_toggle t self) = self_group_atoms self \<and>
     self_as_pyasp (set_toggle t self) = self_as_pyasp self"
  by (cases t) (auto simp: first_arg_only_def by_predicate_def as_pyasp_def sorted_prop_def)

lemma without_effect_cong:
  "self_first_arg_only s = self_first_arg_only s' \<Longrightarrow> self_group_atoms s = self_group_atoms s' \<Longrightarrow>
   self_as_pyasp s = self_as_pyasp s' \<Longrightarrow> without_effect t s = without_effect t s'"
  by (cases t) simp_all

lemma fold_set_toggle_without_effect:
  "\<forall>t\<in>set ts. without_effect t self \<Longrightarrow>
     self_first_arg_only (fold set_toggle ts self) = self_first_arg_only self \<and>
     self_group_atoms (fold set_toggle ts self) = self_group_atoms self \<and>
     self_as_pyasp (fold set_toggle ts self) = self_as_pyasp self"
proof (induction ts arbitrary: self)
  case Nil
  then show ?case by simp
next
  case (Cons t ts)
  then have t: "without_effect t self" by simp
  note keep = set_toggle_without_effect[OF t]
  have "\<forall>u\<in>set ts. without_effect u (set_toggle t self)"
  proof
    fix u assume "u \<in> set ts"
    with Cons.prems have "without_effect u self" by simp
    with keep show "without_effect u (set_toggle t self)"
      using without_effect_cong[of "set_toggle t self" self u] by simp
  qed
  from Cons.IH[OF this] keep show ?case by simp
qed

lemma traverse_with_without_effect:
  assumes "self_answers s1 = self_answers s2"
    and "self_first_arg_only s1 = self_first_arg_only s2"
    and "self_group_atoms s1 = self_group_atoms s2"
    and "self_as_pyasp s1 = self_as_pyasp s2"
    and "\<forall>ts\<in>set sched. \<forall>t\<in>set ts. without_effect t s1"
  shows "fst (traverse_with sched (Suspended srt) s1) = fst (traverse (Suspended srt) s2) \<and>
         fst (snd (traverse_with sched (Suspended srt) s1)) = fst (snd (traverse (Suspended srt) s2))"
  using assms
proof (induction "self_answers s1" arbitrary: s1 s2 sched)
  case Nil
  then have "self_answers s1 = []" "self_answers s2 = []" by simp_all
  then show ?case by (simp add: traverse_Suspended(1) traverse_with_Suspended(1))
next
  case (Cons A rest)
  from Cons.hyps(2) Cons.prems(1) have src: "self_answers s1 = A # rest" "self_answers s2 = A # rest"
    by simp_all
  let ?ts = "case sched of [] \<Rightarrow> [] | ts # _ \<Rightarrow> ts"
  let ?s1 = "fold set_toggle ?ts (s1\<lparr>self_answers := rest\<rparr>)" and ?s2 = "s2\<lparr>self_answers := rest\<rparr>"
  have ts: "\<forall>t\<in>set ?ts. without_effect t (s1\<lparr>self_answers := rest\<rparr>)"
  proof
    fix t assume "t \<in> set ?ts"
    with Cons.prems(5) have "without_effect t s1" by (cases sched) auto
    then show "without_effect t (s1\<lparr>self_answers := rest\<rparr>)"
      using without_effect_cong[of "s1\<lparr>self_answers := rest\<rparr>" s1 t] by simp
  qed
  note keep = fold_set_toggle_without_effect[OF ts]
  have later: "\<forall>ts\<in>set (tl sched). \<forall>t\<in>set ts. without_effect t ?s1"
  proof (intro ballI)
    fix ts t assume "ts \<in> set (tl sched)" "t \<in> set ts"
    with Cons.prems(5) have "without_effect t s1" by (cases sched) auto
    with keep show "without_effect t ?s1"
      using without_effect_cong[of ?s1 s1 t] by simp
  qed
  have IH: "fst (traverse_with (tl sched) (Suspended srt) ?s1) = fst (traverse (Suspended srt) ?s2) \<and>
         fst (snd (traverse_with (tl sched) (Suspended srt) ?s1)) =
         fst (snd (traverse (Suspended srt) ?s2))"
    using Cons.hyps(1)[of ?s1 ?s2 "tl sched"] keep Cons.prems(2-4) later by simp
  show ?case
  proof (cases "iter_body srt (self_first_arg_only s1) (self_group_atoms s1) (self_as_pyasp s1) A")
    case (Inl e)
    with Cons.prems(2-4) have "iter_body srt (self_first_arg_only s2) (self_group_atoms s2)
        (self_as_pyasp s2) A = Inl e" by simp
    from traverse_with_Suspended(2)[OF src(1) Inl] traverse_Suspended(2)[OF src(2) this]
    show ?thesis by simp
  next
    case (Inr a)
    with Cons.prems(2-4) have "iter_body srt (self_first_arg_only s2) (self_group_atoms s2)
        (self_as_pyasp s2) A = Inr a" by simp
    from traverse_with_Suspended(3)[OF src(1) Inr] traverse_Suspended(3)[OF src(2) this] IH
    show ?thesis by (simp add: case_prod_beta)
  qed
qed

subsection \<open>Traversals of a given object\<close>

lemma traverse_with_eval:
  "traverse_with sched (Suspended srt)
     \<lparr>self_answers = [], self_first_arg_only = fa, self_group_atoms = g, self_as_pyasp = w,
      self_sorted = b\<rparr> =
   ([], None, \<lparr>self_answers = [], self_first_arg_only = fa, self_group_atoms = g,
      self_as_pyasp = w, self_sorted = b\<rparr>)"
  "traverse_with sched (Suspended srt)
     \<lparr>self_answers = A # rest, self_first_arg_only = fa, self_group_atoms = g, self_as_pyasp = w,
      self_sorted = b\<rparr> =
   (case iter_body srt fa g w A of
      Inl e \<Rightarrow> ([], Some e, \<lparr>self_answers = rest, self_first_arg_only = fa, self_group_atoms = g,
                 self_as_pyasp = w, self_sorted = b\<rparr>)
    | Inr a \<Rightarrow>
        (case traverse_with (tl sched) (Suspended srt)
                (fold set_toggle (case sched of [] \<Rightarrow> [] | ts # _ \<Rightarrow> ts)
                   \<lparr>self_answers = rest, self_first_arg_only = fa, self_group_atoms = g,
                    self_as_pyasp = w, self_sorted = b\<rparr>) of
           (as, e, self'') \<Rightarrow> (a # as, e, self'')))"
  by (subst traverse_with.simps, simp add: iter_loop_def split: sum.splits)+

lemma traverse_eval:
  "traverse (Suspended srt)
     \<lparr>self_answers = [], self_first_arg_only = fa, self_group_atoms = g, self_as_pyasp = w,
      self_sorted = b\<rparr> =
   ([], None, \<lparr>self_answers = [], self_first_arg_only = fa, self_group_atoms = g,
      self_as_pyasp = w, self_sorted = b\<rparr>)"
  "traverse (Suspended srt)
     \<lparr>self_answers = A # rest, self_first_arg_only = fa, self_group_atoms = g, self_as_pyasp = w,
      self_sorted = b\<rparr> =
   (case iter_body srt fa g w A of
      Inl e \<Rightarrow> ([], Some e, \<lparr>self_answers = rest, self_first_arg_only = fa, self_group_atoms = g,
                 self_as_pyasp = w, self_sorted = b\<rparr>)
    | Inr a \<Rightarrow>
        (case traverse (Suspended srt)
                \<lparr>self_answers = rest, self_first_arg_only = fa, self_group_atoms = g,
                 self_as_pyasp = w, self_sorted = b\<rparr> of
           (as, e, self'') \<Rightarrow> (a # as, e, self'')))"
  by (subst traverse.simps, simp add: iter_loop_def split: sum.splits)+

subsection \<open>A traversal reaches every answer set whose predecessors can be sorted\<close>

text \<open>The loop body returns whenever \<open>sorted\<close> is off or the pairs can be ordered, so a
  traversal yields its \<open>k\<close>-th answer as soon as the source has a \<open>k\<close>-th answer set and,
  under \<open>sorted\<close>, the answer sets up to that one can be sorted.\<close>

lemma sortable_iff:
  "sortable fa A \<longleftrightarrow> (\<forall>x\<in>set (pairs fa A). \<forall>y\<in>set (pairs fa A). orderable_pair x y)"
  by (simp add: sortable_def list_all_iff)

lemma iter_body_ok:
  assumes "srt \<longrightarrow> sortable fa A"
  shows "\<exists>out. iter_body srt fa grouped as_obj A = Inr out"
proof (cases srt)
  case True
  with assms show ?thesis
    by (simp add: sortable_iff iter_body_sorted_ok)
next
  case False
  then show ?thesis
    by (simp add: iter_body_unsorted_ok)
qed

lemma traverse_Suspended_reaches:
  "k < length (self_answers self) \<Longrightarrow>
   (srt \<longrightarrow> (\<forall>j\<le>k. sortable (self_first_arg_only self) (self_answers self ! j))) \<Longrightarrow>
   k < length (fst (traverse (Suspended srt) self))"
proof (induction "self_answers self" arbitrary: self k)
  case Nil
  then show ?case by simp
next
  case (Cons A rest)
  let ?self' = "self\<lparr>self_answers := rest\<rparr>"
  have src: "self_answers self = A # rest" using Cons.hyps(2) by simp
  from Cons.prems(2) src have "srt \<longrightarrow> sortable (self_first_arg_only self) A"
    by force
  from iter_body_ok[OF this] obtain a where
    a: "iter_body srt (self_first_arg_only self) (self_group_atoms self) (self_as_pyasp self) A = Inr a"
    by blast
  have unf: "fst (traverse (Suspended srt) self) = a # fst (traverse (Suspended srt) ?self')"
    by (simp add: traverse_Suspended(3)[OF src a] case_prod_beta)
  show ?case
  proof (cases k)
    case 0
    then show ?thesis by (simp add: unf)
  next
    case (Suc i)
    have "i < length (self_answers ?self')"
      using Cons.prems(1) src Suc by simp
    moreover have "srt \<longrightarrow> (\<forall>j\<le>i. sortable (self_first_arg_only ?self') (self_answers ?self' ! j))"
    proof (intro impI allI)
      fix j assume "srt" "j \<le> i"
      with Cons.prems(2) Suc have "sortable (self_first_arg_only self) (self_answers self ! Suc j)"
        by simp
      then show "sortable (self_first_arg_only ?self') (self_answers ?self' ! j)"
        by (simp add: src)
    qed
    ultimately have "i < length (fst (traverse (Suspended srt) ?self'))"
      using Cons.hyps(1)[of ?self' i] by simp
    then show ?thesis by (simp add: unf Suc)
  qed
qed

lemma traverse_reaches:
  "k < length (self_answers self) \<Longrightarrow>
   (self_sorted self \<longrightarrow> (\<forall>j\<le>k. sortable (self_first_arg_only self) (self_answers self ! j))) \<Longrightarrow>
   k < length (fst (traverse Created self))"
  unfolding traverse_Created by (rule traverse_Suspended_reaches)

text \<open>Conversely, a traversal that has yielded a \<open>k\<close>-th answer has found, under
  \<open>sorted\<close>, every answer set up to the \<open>k\<close>-th such that it can be sorted.\<close>

lemma traverse_reached:
  assumes "k < length (fst (traverse Created self))"
  shows "k < length (self_answers self) \<and>
         (self_sorted self \<longrightarrow>
            (\<forall>j\<le>k. sortable (self_first_arg_only self) (self_answers self ! j)))"
proof (intro conjI impI allI)
  from traverse_nth[OF assms] show "k < length (self_answers self)" by simp
next
  fix j
  assume srt: "self_sorted self" and "j \<le> k"
  with assms have "j < length (fst (traverse Created self))" by simp
  from traverse_nth[OF this] srt
  have "iter_body True (self_first_arg_only self) (self_group_atoms self) (self_as_pyasp self)
          (self_answers self ! j) \<noteq> Inl TypeError"
    by simp
  then show "sortable (self_first_arg_only self) (self_answers self ! j)"
    by (simp add: iter_body_sorted_error sortable_iff)
qed

subsection \<open>What \<open>first_arg_only\<close> shows of the \<open>k\<close>-th answer set\<close>

lemma traverse_first_arg:
  assumes "self_first_arg_only self" and "k < length (fst (traverse Created self))"
  shows "if self_group_atoms self
         then \<exists>m. fst (traverse Created self) ! k = Dict m \<and>
           (\<forall>p x xs. (p, x # xs) \<in> set (self_answers self ! k) \<longrightarrow>
              (\<exists>c. m p = Some c \<and> wrapped (self_as_pyasp self) p x \<in> members c)) \<and>
           (\<forall>q. (q, []) \<in> set (self_answers self ! k) \<longrightarrow>
              (\<exists>c. m q = Some c \<and> wrapped (self_as_pyasp self) q (VTuple []) \<in> members c)) \<and>
           (\<forall>q. q \<notin> fst ` set (self_answers self ! k) \<longrightarrow> m q = None)
         else if self_as_pyasp self
         then \<exists>c. fst (traverse Created self) ! k = Atoms c \<and>
           members c = (\<lambda>(p, args). VAtom p (first_arg args)) ` set (self_answers self ! k) \<and>
           (\<forall>p x xs. (p, x # xs) \<in> set (self_answers self ! k) \<longrightarrow> VAtom p x \<in> members c) \<and>
           (\<forall>q. (q, []) \<in> set (self_answers self ! k) \<longrightarrow> VAtom q (VTuple []) \<in> members c) \<and>
           (\<forall>q. q \<notin> fst ` set (self_answers self ! k) \<longrightarrow> (\<forall>r. VAtom q r \<notin> members c))
         else \<exists>c. fst (traverse Created self) ! k = Pairs c \<and>
           members c = (\<lambda>(p, args). (p, first_arg args)) ` set (self_answers self ! k) \<and>
           (\<forall>p x xs. (p, x # xs) \<in> set (self_answers self ! k) \<longrightarrow> (p, x) \<in> members c) \<and>
           (\<forall>q. (q, []) \<in> set (self_answers self ! k) \<longrightarrow> (q, VTuple []) \<in> members c) \<and>
           (\<forall>q. q \<notin> fst ` set (self_answers self ! k) \<longrightarrow> (\<forall>r. (q, r) \<notin> members c))"
proof -
  let ?A = "self_answers self ! k"
  let ?out = "fst (traverse Created self) ! k"
  note body = traverse_nth[OF assms(2), THEN conjunct2]
  consider (grouped) "self_group_atoms self"
    | (atoms) "\<not> self_group_atoms self" "self_as_pyasp self"
    | (plain) "\<not> self_group_atoms self" "\<not> self_as_pyasp self"
    by blast
  then show ?thesis
  proof cases
    case grouped
    from traverse_grouped[OF grouped assms(2)] obtain m where
      m: "?out = Dict m" "dom m = fst ` set ?A"
         "\<forall>p\<in>fst ` set ?A. \<exists>c. m p = Some c \<and> members c =
            {wrapped (self_as_pyasp self) p (arguments (self_first_arg_only self) args)
             | args. (p, args) \<in> set ?A}"
      by blast
    have "\<exists>c. m p = Some c \<and> wrapped (self_as_pyasp self) p (first_arg args) \<in> members c"
      if "(p, args) \<in> set ?A" for p args
    proof -
      from that have "p \<in> fst ` set ?A" by (rule image_eqI[rotated, where x = "(p, args)"]) simp
      with m(3) obtain c where c: "m p = Some c" "members c =
            {wrapped (self_as_pyasp self) p (arguments (self_first_arg_only self) args)
             | args. (p, args) \<in> set ?A}"
        by blast
      from that assms(1) have "wrapped (self_as_pyasp self) p (first_arg args) \<in> members c"
        unfolding c(2) by (auto simp: arguments_def)
      with c(1) show ?thesis by blast
    qed
    then have "(\<forall>p x xs. (p, x # xs) \<in> set ?A \<longrightarrow>
              (\<exists>c. m p = Some c \<and> wrapped (self_as_pyasp self) p x \<in> members c)) \<and>
        (\<forall>q. (q, []) \<in> set ?A \<longrightarrow>
              (\<exists>c. m q = Some c \<and> wrapped (self_as_pyasp self) q (VTuple []) \<in> members c))"
      by (rule first_arg_shown)
    moreover from m(2) have "\<forall>q. q \<notin> fst ` set ?A \<longrightarrow> m q = None"
      by blast
    ultimately show ?thesis using grouped m(1) by simp
  next
    case atoms
    with body assms(1) have "iter_body (self_sorted self) True False True ?A = Inr ?out"
      by simp
    from iter_body_atoms[OF this] obtain c where
      c: "?out = Atoms c"
         "members c = (\<lambda>(p, args). VAtom p (first_arg args)) ` set ?A"
      unfolding atoms_of_pairs_first by blast
    have "VAtom p (first_arg args) \<in> members c" if "(p, args) \<in> set ?A" for p args
      unfolding c(2) using that by (rule image_eqI[rotated]) simp
    then have "(\<forall>p x xs. (p, x # xs) \<in> set ?A \<longrightarrow> VAtom p x \<in> members c) \<and>
        (\<forall>q. (q, []) \<in> set ?A \<longrightarrow> VAtom q (VTuple []) \<in> members c)"
      by (rule first_arg_shown)
    moreover have "\<forall>q. q \<notin> fst ` set ?A \<longrightarrow> (\<forall>r. VAtom q r \<notin> members c)"
      unfolding c(2) by force
    ultimately show ?thesis using atoms c by simp
  next
    case plain
    with body assms(1) have "iter_body (self_sorted self) True False False ?A = Inr ?out"
      by simp
    from iter_body_plain[OF this] obtain c where
      c: "?out = Pairs c"
         "members c = (\<lambda>(p, args). (p, first_arg args)) ` set ?A"
      unfolding set_pairs_first by blast
    have "(p, first_arg args) \<in> members c" if "(p, args) \<in> set ?A" for p args
      unfolding c(2) using that by (rule image_eqI[rotated]) simp
    then have "(\<forall>p x xs. (p, x # xs) \<in> set ?A \<longrightarrow> (p, x) \<in> members c) \<and>
        (\<forall>q. (q, []) \<in> set ?A \<longrightarrow> (q, VTuple []) \<in> members c)"
      by (rule first_arg_shown)
    moreover have "\<forall>q. q \<notin> fst ` set ?A \<longrightarrow> (\<forall>r. (q, r) \<notin> members c)"
      unfolding c(2) by force
    ultimately show ?thesis using plain c by simp
  qed
qed

section \<open>Properties of the decoder\<close>

subsection \<open>The constructor of \<open>ConceptList\<close>\<close>

lemma matching_pairs:
  "\<forall>x\<in>set xs. length x = 2 \<Longrightarrow> matching n xs = Inr {b. [VInt n, b] \<in> set xs}"
proof (induction xs)
  case Nil
  then show ?case by simp
next
  case (Cons x xs)
  from Cons.prems obtain nb arg where x: "x = [nb, arg]"
    by (cases x; cases "tl x") auto
  from Cons show ?case
    by (auto simp: x)
qed

lemma ConceptList_init_pairs:
  assumes "\<forall>x\<in>set exts \<union> set ints. length x = 2"
  shows "ConceptList_init int_str (VInt n # rest) exts ints =
           Inr \<lparr>self_id = n, self_extent = {b. [VInt n, b] \<in> set exts},
                self_intent = {b. [VInt n, b] \<in> set ints}\<rparr>"
  using assms by (simp add: ConceptList_init_def matching_pairs)

lemma ConceptList_init_all:
  assumes "concept_atoms atoms"
  shows "ConceptList_init int_str [VInt n] (atoms_of ''extent'' atoms) (atoms_of ''intent'' atoms) =
           Inr (concept_of atoms n)"
proof -
  have len: "length x = 2" if "x \<in> set (atoms_of p atoms)" "p = ''extent'' \<or> p = ''intent''" for x p
  proof -
    from that(1) obtain atom where "atom \<in> set atoms" "fst atom = p" "snd atom = x"
      by (auto simp: atoms_of_def)
    with assms that(2) obtain m b where "x = [VInt m, b]"
      unfolding concept_atoms_def by blast
    then show ?thesis by simp
  qed
  have sel: "{b. [VInt n, b] \<in> set (atoms_of p atoms)} = {b. (p, [VInt n, b]) \<in> set atoms}" for p
    by (force simp: atoms_of_def)
  have "ConceptList_init int_str [VInt n] (atoms_of ''extent'' atoms) (atoms_of ''intent'' atoms) =
          Inr \<lparr>self_id = n, self_extent = {b. [VInt n, b] \<in> set (atoms_of ''extent'' atoms)},
               self_intent = {b. [VInt n, b] \<in> set (atoms_of ''intent'' atoms)}\<rparr>"
    using len by (intro ConceptList_init_pairs) blast
  then show ?thesis
    by (simp add: concept_of_def sel)
qed

subsection \<open>The groups of an answer set\<close>

lemma singleton_filter:
  assumes "length (filter P xs) = Suc 0" and "\<forall>y\<in>set xs. P y \<longrightarrow> y = x"
  shows "filter P xs = [x]"
proof -
  from assms(1) obtain y where y: "filter P xs = [y]"
    by (cases "filter P xs") auto
  then have "y \<in> set (filter P xs)" by simp
  with assms(2) have "y = x" by simp
  with y show ?thesis by simp
qed

lemma count_list_filter: "count_list xs x = length (filter (\<lambda>y. y = x) xs)"
  by (induction xs) simp_all

lemma distinct_singleton: "distinct xs \<Longrightarrow> set xs = {x} \<Longrightarrow> xs = [x]"
  by (cases xs) (auto simp: subset_singleton_iff)

lemma decode_ConceptList:
  "decode (ConceptList_decoder int_str) atoms =
     map (decode_group (ConceptList_decoder int_str) (relevant_atoms atoms))
       (remdups (map (group_key True) (relevant_atoms atoms)))"
  by (simp add: decode_def ConceptList_decoder_def relevant_atoms_def Let_def)

lemma relevant_keys:
  assumes "concept_atoms atoms"
  shows "set (map (group_key True) (relevant_atoms atoms)) =
           (\<lambda>n. Some (VInt n)) ` concept_ids atoms"
proof (intro set_eqI iffI)
  fix k
  assume "k \<in> set (map (group_key True) (relevant_atoms atoms))"
  then obtain p args where a: "(p, args) \<in> set atoms"
    and p: "p \<in> {''concept'', ''extent'', ''intent''}" and k: "k = group_key True (p, args)"
    by (auto simp: relevant_atoms_def)
  from assms a p obtain n rest where args: "args = VInt n # rest"
    unfolding concept_atoms_def by fastforce
  with a p have "n \<in> concept_ids atoms"
    unfolding concept_ids_def by blast
  moreover from k args have "k = Some (VInt n)"
    by (simp add: group_key_def)
  ultimately show "k \<in> (\<lambda>n. Some (VInt n)) ` concept_ids atoms"
    by blast
next
  fix k
  assume "k \<in> (\<lambda>n. Some (VInt n)) ` concept_ids atoms"
  then obtain n p rest where k: "k = Some (VInt n)"
    and p: "p \<in> {''concept'', ''extent'', ''intent''}" and a: "(p, VInt n # rest) \<in> set atoms"
    unfolding concept_ids_def by blast
  from a p have "(p, VInt n # rest) \<in> set (relevant_atoms atoms)"
    by (simp add: relevant_atoms_def)
  then have "group_key True (p, VInt n # rest) \<in> set (map (group_key True) (relevant_atoms atoms))"
    by (simp only: set_map) (rule imageI)
  with k show "k \<in> set (map (group_key True) (relevant_atoms atoms))"
    by (simp add: group_key_def)
qed

lemma collect_concept:
  assumes "concept_atoms atoms"
    and "length (filter (\<lambda>atom. atom = (''concept'', [VInt n])) atoms) = 1"
  shows "collect True (relevant_atoms atoms) (Some (VInt n)) (''concept'', One) =
           Some (Single [VInt n])"
proof -
  let ?P = "\<lambda>atom. fst atom = ''concept'' \<and> group_key True atom = Some (VInt n)"
  have same: "?P atom \<longleftrightarrow> atom = (''concept'', [VInt n])" if "atom \<in> set atoms" for atom
  proof
    assume P: "?P atom"
    with assms(1) that obtain m where "snd atom = [VInt m]"
      unfolding concept_atoms_def by blast
    with P show "atom = (''concept'', [VInt n])"
      by (cases atom) (simp add: group_key_def)
  qed (simp add: group_key_def)
  have "filter ?P (relevant_atoms atoms) =
          filter (\<lambda>atom. fst atom \<in> {''concept'', ''extent'', ''intent''} \<and> ?P atom) atoms"
    by (simp add: relevant_atoms_def conj_commute)
  also have "\<dots> = filter ?P atoms"
    by (rule filter_cong) auto
  also have "\<dots> = filter (\<lambda>atom. atom = (''concept'', [VInt n])) atoms"
    by (rule filter_cong) (simp_all add: same)
  also have "\<dots> = [(''concept'', [VInt n])]"
    using assms(2) by (intro singleton_filter) simp_all
  finally show ?thesis
    by (simp add: collect_def)
qed

lemma collect_many:
  assumes "concept_atoms atoms" and "p = ''extent'' \<or> p = ''intent''"
  shows "\<exists>found. collect True (relevant_atoms atoms) (Some (VInt n)) (p, All) = Some (Many found) \<and>
           (\<forall>x\<in>set found. length x = 2) \<and>
           {b. [VInt n, b] \<in> set found} = {b. (p, [VInt n, b]) \<in> set atoms}"
proof -
  let ?P = "\<lambda>atom. fst atom = p \<and> group_key True atom = Some (VInt n)"
  let ?found = "map snd (filter ?P (relevant_atoms atoms))"
  have c: "collect True (relevant_atoms atoms) (Some (VInt n)) (p, All) = Some (Many ?found)"
    by (simp add: collect_def)
  have len: "length x = 2" if "x \<in> set ?found" for x
  proof -
    from that obtain atom where "atom \<in> set atoms" "fst atom = p" "snd atom = x"
      by (auto simp: relevant_atoms_def)
    with assms obtain m b where "x = [VInt m, b]"
      unfolding concept_atoms_def by blast
    then show ?thesis by simp
  qed
  have "b \<in> {b. [VInt n, b] \<in> set ?found} \<longleftrightarrow> b \<in> {b. (p, [VInt n, b]) \<in> set atoms}" for b
  proof
    assume "b \<in> {b. [VInt n, b] \<in> set ?found}"
    then obtain atom where atom: "atom \<in> set atoms" "fst atom = p" "snd atom = [VInt n, b]"
      by (auto simp: relevant_atoms_def)
    from atom(2,3) have "atom = (p, [VInt n, b])"
      by (simp add: prod_eq_iff)
    with atom(1) show "b \<in> {b. (p, [VInt n, b]) \<in> set atoms}"
      by simp
  next
    assume "b \<in> {b. (p, [VInt n, b]) \<in> set atoms}"
    then have "(p, [VInt n, b]) \<in> set atoms" by simp
    with assms(2) have "(p, [VInt n, b]) \<in> set (filter ?P (relevant_atoms atoms))"
      by (auto simp: relevant_atoms_def group_key_def)
    then have "snd (p, [VInt n, b]) \<in> set ?found"
      by (simp only: set_map) (rule imageI)
    then show "b \<in> {b. [VInt n, b] \<in> set ?found}" by simp
  qed
  then have "{b. [VInt n, b] \<in> set ?found} = {b. (p, [VInt n, b]) \<in> set atoms}"
    by blast
  with c len show ?thesis by blast
qed

lemma decode_group_ConceptList:
  assumes "concept_atoms atoms"
    and "length (filter (\<lambda>atom. atom = (''concept'', [VInt n])) atoms) = 1"
  shows "decode_group (ConceptList_decoder int_str) (relevant_atoms atoms) (Some (VInt n)) =
           Inr (concept_of atoms n)"
proof -
  from collect_many[OF assms(1), of "''extent''" n] obtain fe where
    fe: "collect True (relevant_atoms atoms) (Some (VInt n)) (''extent'', All) = Some (Many fe)"
      "\<forall>x\<in>set fe. length x = 2"
      "{b. [VInt n, b] \<in> set fe} = {b. (''extent'', [VInt n, b]) \<in> set atoms}"
    by auto
  from collect_many[OF assms(1), of "''intent''" n] obtain fi where
    fi: "collect True (relevant_atoms atoms) (Some (VInt n)) (''intent'', All) = Some (Many fi)"
      "\<forall>x\<in>set fi. length x = 2"
      "{b. [VInt n, b] \<in> set fi} = {b. (''intent'', [VInt n, b]) \<in> set atoms}"
    by auto
  have "decode_group (ConceptList_decoder int_str) (relevant_atoms atoms) (Some (VInt n)) =
          ConceptList_init int_str [VInt n] fe fi"
    by (simp add: decode_group_def ConceptList_decoder_def collect_concept[OF assms] fe(1) fi(1))
  also have "\<dots> = Inr \<lparr>self_id = n, self_extent = {b. [VInt n, b] \<in> set fe},
                        self_intent = {b. [VInt n, b] \<in> set fi}\<rparr>"
    using fe(2) fi(2) by (intro ConceptList_init_pairs) blast
  finally show ?thesis
    by (simp add: concept_of_def fe(3) fi(3))
qed

lemma decode_ConceptList_set:
  assumes "concept_atoms atoms"
    and "\<forall>n\<in>concept_ids atoms. length (filter (\<lambda>atom. atom = (''concept'', [VInt n])) atoms) = 1"
  shows "distinct (decode (ConceptList_decoder int_str) atoms)"
    and "set (decode (ConceptList_decoder int_str) atoms) =
           (\<lambda>n. Inr (concept_of atoms n)) ` concept_ids atoms"
proof -
  let ?d = "ConceptList_decoder int_str"
  let ?keys = "remdups (map (group_key True) (relevant_atoms atoms))"
  have keys: "set ?keys = (\<lambda>n. Some (VInt n)) ` concept_ids atoms"
    using relevant_keys[OF assms(1)] by simp
  have grp: "decode_group ?d (relevant_atoms atoms) (Some (VInt n)) = Inr (concept_of atoms n)"
    if "n \<in> concept_ids atoms" for n
    using assms that by (intro decode_group_ConceptList) simp_all
  have "inj_on (decode_group ?d (relevant_atoms atoms)) (set ?keys)"
  proof (rule inj_onI)
    fix x y
    assume "x \<in> set ?keys" "y \<in> set ?keys"
      and eq: "decode_group ?d (relevant_atoms atoms) x = decode_group ?d (relevant_atoms atoms) y"
    then obtain n m where x: "x = Some (VInt n)" "n \<in> concept_ids atoms"
      and y: "y = Some (VInt m)" "m \<in> concept_ids atoms"
      unfolding keys by blast
    from eq x y have "concept_of atoms n = concept_of atoms m"
      by (simp add: grp)
    then have "n = m"
      by (simp add: concept_of_def)
    with x y show "x = y" by simp
  qed
  then show "distinct (decode ?d atoms)"
    by (simp add: decode_ConceptList distinct_map)
  have "set (decode ?d atoms) = decode_group ?d (relevant_atoms atoms) ` set ?keys"
    by (simp only: decode_ConceptList set_map)
  also have "\<dots> = (\<lambda>n. decode_group ?d (relevant_atoms atoms) (Some (VInt n))) ` concept_ids atoms"
    unfolding keys by (simp add: image_image)
  also have "\<dots> = (\<lambda>n. Inr (concept_of atoms n)) ` concept_ids atoms"
    by (rule image_cong) (simp_all add: grp)
  finally show "set (decode ?d atoms) = (\<lambda>n. Inr (concept_of atoms n)) ` concept_ids atoms" .
qed

subsection \<open>The answer set of the test\<close>

lemma expected_objects:
  "expected int_str =
     {Inr \<lparr>self_id = 0, self_extent = {VStr ''a'', VStr ''b''},
            self_intent = {VStr ''c'', VStr ''d''}\<rparr>,
      Inr \<lparr>self_id = 1, self_extent = {VStr ''b'', VStr ''e''},
            self_intent = {VStr ''f'', VStr ''g''}\<rparr>,
      Inr \<lparr>self_id = 2, self_extent = {VStr ''b''},
            self_intent = {VStr ''c'', VStr ''d'', VStr ''f'', VStr ''g''}\<rparr>}"
  by (simp add: expected_def ConceptList_init_def insert_commute)

lemma concept_ids_Nil: "concept_ids [] = {}"
  by (simp add: concept_ids_def)

lemma concept_ids_Cons:
  "concept_ids ((p, VInt n # rest) # atoms) =
     (if p \<in> {''concept'', ''extent'', ''intent''} then insert n (concept_ids atoms)
      else concept_ids atoms)"
  unfolding concept_ids_def by (cases "p \<in> {''concept'', ''extent'', ''intent''}") auto

lemma concept_ids_ASP_LIST_CONCEPTS: "concept_ids ASP_LIST_CONCEPTS = {0, 1, 2}"
  unfolding ASP_LIST_CONCEPTS_def by (simp add: concept_ids_Nil concept_ids_Cons) blast

lemma concept_of_ASP_LIST_CONCEPTS:
  "concept_of ASP_LIST_CONCEPTS 0 =
     \<lparr>self_id = 0, self_extent = {VStr ''a'', VStr ''b''}, self_intent = {VStr ''c'', VStr ''d''}\<rparr>"
  "concept_of ASP_LIST_CONCEPTS 1 =
     \<lparr>self_id = 1, self_extent = {VStr ''b'', VStr ''e''}, self_intent = {VStr ''f'', VStr ''g''}\<rparr>"
  "concept_of ASP_LIST_CONCEPTS 2 =
     \<lparr>self_id = 2, self_extent = {VStr ''b''},
      self_intent = {VStr ''c'', VStr ''d'', VStr ''f'', VStr ''g''}\<rparr>"
  by (auto simp: concept_of_def ASP_LIST_CONCEPTS_def)

section \<open>The claims of the specification\<close>

text \<open>
  Claim C1 (grouping by predicate), as amended. The claim speaks of every answer set
  of the stream. Under \<open>sorted\<close> that fails: each bucket is built by \<open>sorted\<close>, which raises
  TypeError when two arguments of a predicate cannot be ordered, as those of \<open>a(1)\<close> and
  \<open>a('x')\<close>, and the traversal ends there without a mapping for that answer set or for
  any later one. What holds: take an object whose flag \<open>by_predicate\<close> is set and the
  \<open>k\<close>-th answer set of its source; if \<open>sorted\<close> is off, or the answer sets up to the
  \<open>k\<close>-th can be sorted, a traversal yields a \<open>k\<close>-th answer, and that answer is a dict. Its
  keys are exactly the predicates that occur in the \<open>k\<close>-th answer set: a predicate
  without an atom there is not a key. The bucket of a predicate \<open>p\<close> holds exactly the
  argument representations of the atoms of that answer set whose predicate is \<open>p\<close>:
  \<open>tuple(args)\<close>, or the first argument under \<open>first_arg_only\<close>, each inside an \<open>Atom\<close>
  object when \<open>as_pyasp\<close> is set too.
\<close>

theorem by_predicate_grouping:
  assumes "self_group_atoms self" and "k < length (self_answers self)"
    and "self_sorted self \<longrightarrow>
           (\<forall>j\<le>k. sortable (self_first_arg_only self) (self_answers self ! j))"
  shows "k < length (fst (traverse Created self)) \<and>
         (\<exists>m. fst (traverse Created self) ! k = Dict m \<and>
           dom m = fst ` set (self_answers self ! k) \<and>
           (\<forall>p\<in>fst ` set (self_answers self ! k). \<exists>c. m p = Some c \<and>
              members c =
                {wrapped (self_as_pyasp self) p (arguments (self_first_arg_only self) args)
                 | args. (p, args) \<in> set (self_answers self ! k)}))"
proof -
  from assms(2,3) have k: "k < length (fst (traverse Created self))"
    by (rule traverse_reaches)
  with traverse_grouped[OF assms(1) k] show ?thesis by blast
qed

theorem by_predicate_grouping_witness:
  "1 < length (fst (traverse Created (sorted_prop (by_predicate (init
          [ [(''r'', [])], [(''p'', [VInt 1, VInt 7]), (''q'', []), (''p'', [VInt 2])] ]))))) \<and>
   (\<exists>m. fst (traverse Created (sorted_prop (by_predicate (init
          [ [(''r'', [])], [(''p'', [VInt 1, VInt 7]), (''q'', []), (''p'', [VInt 2])] ])))) ! 1 = Dict m \<and>
       dom m = {''p'', ''q''} \<and>
       (\<exists>c. m ''p'' = Some c \<and> members c = {VTuple [VInt 1, VInt 7], VTuple [VInt 2]}) \<and>
       (\<exists>c. m ''q'' = Some c \<and> members c = {VTuple []}))"
proof -
  let ?self = "sorted_prop (by_predicate (init
          [ [(''r'', [])], [(''p'', [VInt 1, VInt 7]), (''q'', []), (''p'', [VInt 2])] ]))"
  have g: "self_group_atoms ?self"
    by (simp add: by_predicate_def sorted_prop_def init_def)
  have k: "1 < length (self_answers ?self)"
    by (simp add: by_predicate_def sorted_prop_def init_def)
  have s: "self_sorted ?self \<longrightarrow>
           (\<forall>j\<le>1. sortable (self_first_arg_only ?self) (self_answers ?self ! j))"
    by (simp add: by_predicate_def sorted_prop_def init_def sortable_def pairs_def arguments_def
        orderable_pair_def le_Suc_eq)
  have A: "self_answers ?self ! 1 = [(''p'', [VInt 1, VInt 7]), (''q'', []), (''p'', [VInt 2])]"
    "\<not> self_as_pyasp ?self" "\<not> self_first_arg_only ?self"
    by (simp_all add: by_predicate_def sorted_prop_def init_def)
  from by_predicate_grouping[OF g k s] obtain m where
    len: "1 < length (fst (traverse Created ?self))" and
    m: "fst (traverse Created ?self) ! 1 = Dict m"
       "dom m = fst ` set (self_answers ?self ! 1)"
       "\<forall>p\<in>fst ` set (self_answers ?self ! 1). \<exists>c. m p = Some c \<and>
              members c =
                {wrapped (self_as_pyasp ?self) p (arguments (self_first_arg_only ?self) args)
                 | args. (p, args) \<in> set (self_answers ?self ! 1)}"
    by blast
  from m(2) have "dom m = {''p'', ''q''}"
    unfolding A by auto
  moreover from m(3) A(2,3) have "\<exists>c. m ''p'' = Some c \<and> members c = {VTuple [VInt 1, VInt 7], VTuple [VInt 2]}"
    unfolding A(1) by (auto simp: wrapped_def arguments_def)
  moreover from m(3) A(2,3) have "\<exists>c. m ''q'' = Some c \<and> members c = {VTuple []}"
    unfolding A(1) by (auto simp: wrapped_def arguments_def)
  ultimately show ?thesis using m(1) len by blast
qed

theorem by_predicate_grouping_counterexample:
  "fst (traverse Created (sorted_prop (by_predicate (init
      [ [(''a'', [VInt 1]), (''a'', [VStr ''x''])], [(''q'', [])] ])))) = [] \<and>
   fst (snd (traverse Created (sorted_prop (by_predicate (init
      [ [(''a'', [VInt 1]), (''a'', [VStr ''x''])], [(''q'', [])] ]))))) = Some TypeError"
  by (simp add: traverse_Created init_def by_predicate_def sorted_prop_def traverse_eval
      iter_body_def builder_def sorted_tuple_def pairs_def arguments_def orderable_pair_def)

text \<open>
  Claim C2 (first argument only), as amended. The claim speaks of every atom of an
  answer set. Under \<open>sorted\<close> that fails: the marker \<open>()\<close> cannot be ordered against a
  first argument such as \<open>1\<close>, so an answer set with \<open>q\<close> and \<open>q(1)\<close> raises TypeError and
  nothing is shown of it. What holds: take an object with \<open>first_arg_only\<close> set and the
  \<open>k\<close>-th answer set of its source; if \<open>sorted\<close> is off, or the answer sets up to the
  \<open>k\<close>-th can be sorted, a traversal yields a \<open>k\<close>-th answer. In it an atom with the
  arguments \<open>x, \<dots>\<close> is shown with \<open>x\<close> alone, an atom \<open>q\<close> without arguments with the empty
  tuple, and a predicate that does not occur in the \<open>k\<close>-th answer set is not shown at
  all, so that \<open>(q, ())\<close> tells the atom \<open>q\<close> apart from its absence. Without
  \<open>by_predicate\<close> and \<open>as_pyasp\<close> the answer holds exactly the pairs
  \<open>(p, first_arg args)\<close>; under \<open>as_pyasp\<close> the objects \<open>Atom(p, first_arg args)\<close>; under
  \<open>by_predicate\<close> the bucket of \<open>p\<close> holds the \<open>first_arg args\<close> (wrapped under
  \<open>as_pyasp\<close>), and an absent predicate is no key.
\<close>

theorem first_arg_only_marker:
  assumes "self_first_arg_only self" and "k < length (self_answers self)"
    and "self_sorted self \<longrightarrow> (\<forall>j\<le>k. sortable True (self_answers self ! j))"
  shows "k < length (fst (traverse Created self)) \<and>
        (if self_group_atoms self
         then \<exists>m. fst (traverse Created self) ! k = Dict m \<and>
           (\<forall>p x xs. (p, x # xs) \<in> set (self_answers self ! k) \<longrightarrow>
              (\<exists>c. m p = Some c \<and> wrapped (self_as_pyasp self) p x \<in> members c)) \<and>
           (\<forall>q. (q, []) \<in> set (self_answers self ! k) \<longrightarrow>
              (\<exists>c. m q = Some c \<and> wrapped (self_as_pyasp self) q (VTuple []) \<in> members c)) \<and>
           (\<forall>q. q \<notin> fst ` set (self_answers self ! k) \<longrightarrow> m q = None)
         else if self_as_pyasp self
         then \<exists>c. fst (traverse Created self) ! k = Atoms c \<and>
           members c = (\<lambda>(p, args). VAtom p (first_arg args)) ` set (self_answers self ! k) \<and>
           (\<forall>p x xs. (p, x # xs) \<in> set (self_answers self ! k) \<longrightarrow> VAtom p x \<in> members c) \<and>
           (\<forall>q. (q, []) \<in> set (self_answers self ! k) \<longrightarrow> VAtom q (VTuple []) \<in> members c) \<and>
           (\<forall>q. q \<notin> fst ` set (self_answers self ! k) \<longrightarrow> (\<forall>r. VAtom q r \<notin> members c))
         else \<exists>c. fst (traverse Created self) ! k = Pairs c \<and>
           members c = (\<lambda>(p, args). (p, first_arg args)) ` set (self_answers self ! k) \<and>
           (\<forall>p x xs. (p, x # xs) \<in> set (self_answers self ! k) \<longrightarrow> (p, x) \<in> members c) \<and>
           (\<forall>q. (q, []) \<in> set (self_answers self ! k) \<longrightarrow> (q, VTuple []) \<in> members c) \<and>
           (\<forall>q. q \<notin> fst ` set (self_answers self ! k) \<longrightarrow> (\<forall>r. (q, r) \<notin> members c)))"
proof -
  from assms have k: "k < length (fst (traverse Created self))"
    by (intro traverse_reaches) simp_all
  with traverse_first_arg[OF assms(1) k] show ?thesis by blast
qed

theorem first_arg_only_marker_witness:
  "(1 < length (fst (traverse Created (sorted_prop (first_arg_only (init
          [ [(''r'', [])], [(''p'', [VStr ''x'', VStr ''y'', VStr ''z'']), (''q'', [])] ]))))) \<and>
    (\<exists>c. fst (traverse Created (sorted_prop (first_arg_only (init
          [ [(''r'', [])], [(''p'', [VStr ''x'', VStr ''y'', VStr ''z'']), (''q'', [])] ])))) ! 1 = Pairs c \<and>
       members c = {(''p'', VStr ''x''), (''q'', VTuple [])} \<and>
       (\<forall>r. (''s'', r) \<notin> members c))) \<and>
   (0 < length (fst (traverse Created (by_predicate (first_arg_only (init
          [ [(''p'', [VStr ''x'', VStr ''y'', VStr ''z'']), (''q'', [])] ]))))) \<and>
    (\<exists>m. fst (traverse Created (by_predicate (first_arg_only (init
          [ [(''p'', [VStr ''x'', VStr ''y'', VStr ''z'']), (''q'', [])] ])))) ! 0 = Dict m \<and>
       (\<exists>c. m ''p'' = Some c \<and> VStr ''x'' \<in> members c) \<and>
       (\<exists>c. m ''q'' = Some c \<and> VTuple [] \<in> members c) \<and>
       m ''s'' = None))"
proof
  let ?self = "sorted_prop (first_arg_only (init
          [ [(''r'', [])], [(''p'', [VStr ''x'', VStr ''y'', VStr ''z'']), (''q'', [])] ]))"
  have flags: "self_first_arg_only ?self" "\<not> self_group_atoms ?self" "\<not> self_as_pyasp ?self"
    by (simp_all add: first_arg_only_def sorted_prop_def init_def)
  have k: "1 < length (self_answers ?self)"
    by (simp add: first_arg_only_def sorted_prop_def init_def)
  have s: "self_sorted ?self \<longrightarrow> (\<forall>j\<le>1. sortable True (self_answers ?self ! j))"
    by (simp add: first_arg_only_def sorted_prop_def init_def sortable_def pairs_def arguments_def
        first_arg_def orderable_pair_def le_Suc_eq)
  have A: "self_answers ?self ! 1 = [(''p'', [VStr ''x'', VStr ''y'', VStr ''z'']), (''q'', [])]"
    by (simp add: first_arg_only_def sorted_prop_def init_def)
  from first_arg_only_marker[OF flags(1) k s] flags(2,3) obtain c where
    len: "1 < length (fst (traverse Created ?self))" and
    c: "fst (traverse Created ?self) ! 1 = Pairs c"
       "members c = (\<lambda>(p, args). (p, first_arg args)) ` set (self_answers ?self ! 1)"
       "\<forall>q. q \<notin> fst ` set (self_answers ?self ! 1) \<longrightarrow> (\<forall>r. (q, r) \<notin> members c)"
    by auto
  from c(2) have "members c = {(''p'', VStr ''x''), (''q'', VTuple [])}"
    unfolding A by (simp add: first_arg_def)
  moreover from c(3) have "\<forall>r. (''s'', r) \<notin> members c"
    unfolding A by simp
  ultimately show "1 < length (fst (traverse Created ?self)) \<and>
    (\<exists>c. fst (traverse Created ?self) ! 1 = Pairs c \<and>
       members c = {(''p'', VStr ''x''), (''q'', VTuple [])} \<and>
       (\<forall>r. (''s'', r) \<notin> members c))"
    using c(1) len by blast
next
  let ?self = "by_predicate (first_arg_only (init
      [ [(''p'', [VStr ''x'', VStr ''y'', VStr ''z'']), (''q'', [])] ]))"
  have flags: "self_first_arg_only ?self" "self_group_atoms ?self" "\<not> self_as_pyasp ?self"
    by (simp_all add: first_arg_only_def by_predicate_def init_def)
  have k: "0 < length (self_answers ?self)"
    by (simp add: first_arg_only_def by_predicate_def init_def)
  have s: "self_sorted ?self \<longrightarrow> (\<forall>j\<le>0. sortable True (self_answers ?self ! j))"
    by (simp add: first_arg_only_def by_predicate_def init_def)
  have A: "self_answers ?self ! 0 = [(''p'', [VStr ''x'', VStr ''y'', VStr ''z'']), (''q'', [])]"
    by (simp add: first_arg_only_def by_predicate_def init_def)
  from first_arg_only_marker[OF flags(1) k s] flags(2) obtain m where
    len: "0 < length (fst (traverse Created ?self))" and
    m: "fst (traverse Created ?self) ! 0 = Dict m"
       "\<forall>p x xs. (p, x # xs) \<in> set (self_answers ?self ! 0) \<longrightarrow>
              (\<exists>c. m p = Some c \<and> wrapped (self_as_pyasp ?self) p x \<in> members c)"
       "\<forall>q. (q, []) \<in> set (self_answers ?self ! 0) \<longrightarrow>
              (\<exists>c. m q = Some c \<and> wrapped (self_as_pyasp ?self) q (VTuple []) \<in> members c)"
       "\<forall>q. q \<notin> fst ` set (self_answers ?self ! 0) \<longrightarrow> m q = None"
    by auto
  from m(2) flags(3) have "\<exists>c. m ''p'' = Some c \<and> VStr ''x'' \<in> members c"
    unfolding A by (simp add: wrapped_def)
  moreover from m(3) flags(3) have "\<exists>c. m ''q'' = Some c \<and> VTuple [] \<in> members c"
    unfolding A by (simp add: wrapped_def)
  moreover from m(4) have "m ''s'' = None"
    unfolding A by simp
  ultimately show "0 < length (fst (traverse Created ?self)) \<and>
    (\<exists>m. fst (traverse Created ?self) ! 0 = Dict m \<and>
       (\<exists>c. m ''p'' = Some c \<and> VStr ''x'' \<in> members c) \<and>
       (\<exists>c. m ''q'' = Some c \<and> VTuple [] \<in> members c) \<and>
       m ''s'' = None)"
    using m(1) len by blast
qed

theorem first_arg_only_marker_counterexample:
  "fst (traverse Created (sorted_prop (first_arg_only (init
      [ [(''q'', []), (''q'', [VInt 1])] ])))) = [] \<and>
   fst (snd (traverse Created (sorted_prop (first_arg_only (init
      [ [(''q'', []), (''q'', [VInt 1])] ]))))) = Some TypeError"
  by (simp add: traverse_Created init_def first_arg_only_def sorted_prop_def traverse_eval
      iter_body_def builder_def sorted_tuple_def pairs_def arguments_def first_arg_def
      orderable_pair_def)

text \<open>
  Claim C3 (flags and a running traversal), as amended. The claim says that no flag
  set after the first pull changes what the traversal yields. That holds for \<open>sorted\<close>,
  which fixes \<open>builder\<close> once, before the loop, and for a flag that is set already; the
  counterexample below shows that it fails for \<open>first_arg_only\<close>, which the loop reads
  for every answer set, as it reads \<open>by_predicate\<close> and \<open>as_pyasp\<close>. Amended: for every
  source and every schedule of settings made after the first pull, each of them a
  setting of \<open>sorted\<close> or of a flag already set, the traversal yields the same answers
  and ends in the same way as the traversal without any setting.
\<close>

theorem flags_after_first_pull:
  assumes "\<forall>ts\<in>set sched. \<forall>t\<in>set ts. without_effect t self"
  shows "fst (traverse_with sched Created self) = fst (traverse Created self) \<and>
         fst (snd (traverse_with sched Created self)) = fst (snd (traverse Created self))"
  using traverse_with_without_effect[OF refl refl refl refl assms, of "self_sorted self"]
  by (simp add: traverse_with_Created traverse_Created)

theorem flags_after_first_pull_witness:
  "fst (traverse_with [ [Sorted] ] Created
         (init [ [(''q'', []), (''p'', [])], [(''q'', []), (''p'', [])] ])) =
   fst (traverse Created (init [ [(''q'', []), (''p'', [])], [(''q'', []), (''p'', [])] ])) \<and>
   fst (traverse_with [ [Sorted] ] Created
         (init [ [(''q'', []), (''p'', [])], [(''q'', []), (''p'', [])] ])) =
     [Pairs (FrozenSet {(''q'', VTuple []), (''p'', VTuple [])}),
      Pairs (FrozenSet {(''q'', VTuple []), (''p'', VTuple [])})]"
proof -
  let ?self = "init [ [(''q'', []), (''p'', [])], [(''q'', []), (''p'', [])] ]"
  have "\<forall>ts\<in>set [ [Sorted] ]. \<forall>t\<in>set ts. without_effect t ?self"
    by simp
  from flags_after_first_pull[OF this]
  have "fst (traverse_with [ [Sorted] ] Created ?self) = fst (traverse Created ?self)"
    by simp
  moreover have "fst (traverse Created ?self) =
     [Pairs (FrozenSet {(''q'', VTuple []), (''p'', VTuple [])}),
      Pairs (FrozenSet {(''q'', VTuple []), (''p'', VTuple [])})]"
    by (simp add: traverse_Created init_def traverse_eval iter_body_unsorted_plain pairs_def
        arguments_def)
  ultimately show ?thesis by simp
qed

theorem flags_after_first_pull_counterexample:
  "fst (traverse_with [ [FirstArgOnly] ] Created
         (init [ [(''p'', [VStr ''a'', VStr ''b''])], [(''p'', [VStr ''a'', VStr ''b''])] ])) =
     [Pairs (FrozenSet {(''p'', VTuple [VStr ''a'', VStr ''b''])}),
      Pairs (FrozenSet {(''p'', VStr ''a'')})] \<and>
   fst (traverse Created
         (init [ [(''p'', [VStr ''a'', VStr ''b''])], [(''p'', [VStr ''a'', VStr ''b''])] ])) =
     [Pairs (FrozenSet {(''p'', VTuple [VStr ''a'', VStr ''b''])}),
      Pairs (FrozenSet {(''p'', VTuple [VStr ''a'', VStr ''b''])})] \<and>
   fst (traverse_with [ [FirstArgOnly] ] Created
         (init [ [(''p'', [VStr ''a'', VStr ''b''])], [(''p'', [VStr ''a'', VStr ''b''])] ])) \<noteq>
   fst (traverse Created
         (init [ [(''p'', [VStr ''a'', VStr ''b''])], [(''p'', [VStr ''a'', VStr ''b''])] ]))"
  by (simp add: traverse_with_Created traverse_Created init_def traverse_with_eval traverse_eval
      iter_body_unsorted_plain pairs_def arguments_def first_arg_def first_arg_only_def)

text \<open>
  Claim C4 (wrapping and grouping). Take an object with \<open>as_pyasp\<close> set and the \<open>k\<close>-th
  answer of a traversal. With \<open>by_predicate\<close> the answer is a dict, and the wrapping is
  inside the buckets: the bucket of \<open>p\<close> holds exactly the objects
  \<open>Atom(p, arguments)\<close> of the atoms with predicate \<open>p\<close>. Without \<open>by_predicate\<close> the
  answer is one container that holds exactly the objects \<open>Atom(p, arguments)\<close> of all
  atoms of the answer set.
\<close>

theorem as_pyasp_wrapping:
  assumes "self_as_pyasp self" and "k < length (fst (traverse Created self))"
  shows "if self_group_atoms self
         then \<exists>m. fst (traverse Created self) ! k = Dict m \<and>
                dom m = fst ` set (self_answers self ! k) \<and>
                (\<forall>p\<in>fst ` set (self_answers self ! k). \<exists>c. m p = Some c \<and>
                   members c = {VAtom p (arguments (self_first_arg_only self) args)
                                | args. (p, args) \<in> set (self_answers self ! k)})
         else \<exists>c. fst (traverse Created self) ! k = Atoms c \<and>
                members c = {VAtom p (arguments (self_first_arg_only self) args)
                             | p args. (p, args) \<in> set (self_answers self ! k)}"
proof (cases "self_group_atoms self")
  case True
  from traverse_grouped[OF True assms(2)] assms(1) True show ?thesis
    by (simp add: wrapped_def)
next
  case False
  let ?A = "self_answers self ! k"
  from traverse_nth[OF assms(2)] assms(1) False
  have "iter_body (self_sorted self) (self_first_arg_only self) False True ?A =
          Inr (fst (traverse Created self) ! k)"
    by simp
  from iter_body_atoms[OF this] obtain c where
    "fst (traverse Created self) ! k = Atoms c"
    "members c = (\<lambda>(p, a). VAtom p a) ` set (pairs (self_first_arg_only self) ?A)"
    by blast
  with False show ?thesis
    by (simp add: atoms_of_pairs)
qed

theorem as_pyasp_wrapping_witness:
  "(\<exists>m. fst (traverse Created (as_pyasp (by_predicate (init
           [ [(''p'', [VInt 1]), (''p'', [VInt 2]), (''q'', [])] ])))) ! 0 = Dict m \<and>
        dom m = {''p'', ''q''} \<and>
        (\<exists>c. m ''p'' = Some c \<and>
           members c = {VAtom ''p'' (VTuple [VInt 1]), VAtom ''p'' (VTuple [VInt 2])})) \<and>
   (\<exists>c. fst (traverse Created (as_pyasp (init
           [ [(''p'', [VInt 1]), (''q'', [])] ]))) ! 0 = Atoms c \<and>
        members c = {VAtom ''p'' (VTuple [VInt 1]), VAtom ''q'' (VTuple [])})"
proof
  let ?self = "as_pyasp (by_predicate (init [ [(''p'', [VInt 1]), (''p'', [VInt 2]), (''q'', [])] ]))"
  have flags: "self_as_pyasp ?self" "self_group_atoms ?self" "\<not> self_first_arg_only ?self"
    by (simp_all add: as_pyasp_def by_predicate_def init_def)
  have A: "self_answers ?self ! 0 = [(''p'', [VInt 1]), (''p'', [VInt 2]), (''q'', [])]"
    by (simp add: as_pyasp_def by_predicate_def init_def)
  have k: "0 < length (fst (traverse Created ?self))"
    by (simp add: traverse_unsorted_length as_pyasp_def by_predicate_def init_def)
  from as_pyasp_wrapping[OF flags(1) k] flags(2) obtain m where
    m: "fst (traverse Created ?self) ! 0 = Dict m"
       "dom m = fst ` set (self_answers ?self ! 0)"
       "\<forall>p\<in>fst ` set (self_answers ?self ! 0). \<exists>c. m p = Some c \<and>
                   members c = {VAtom p (arguments (self_first_arg_only ?self) args)
                                | args. (p, args) \<in> set (self_answers ?self ! 0)}"
    by auto
  from m(2) have "dom m = {''p'', ''q''}"
    unfolding A by auto
  moreover from m(3) flags(3) have "\<exists>c. m ''p'' = Some c \<and>
           members c = {VAtom ''p'' (VTuple [VInt 1]), VAtom ''p'' (VTuple [VInt 2])}"
    unfolding A by (auto simp: arguments_def)
  ultimately show "\<exists>m. fst (traverse Created ?self) ! 0 = Dict m \<and>
        dom m = {''p'', ''q''} \<and>
        (\<exists>c. m ''p'' = Some c \<and>
           members c = {VAtom ''p'' (VTuple [VInt 1]), VAtom ''p'' (VTuple [VInt 2])})"
    using m(1) by blast
next
  let ?self = "as_pyasp (init [ [(''p'', [VInt 1]), (''q'', [])] ])"
  have flags: "self_as_pyasp ?self" "\<not> self_group_atoms ?self" "\<not> self_first_arg_only ?self"
    by (simp_all add: as_pyasp_def init_def)
  have A: "self_answers ?self ! 0 = [(''p'', [VInt 1]), (''q'', [])]"
    by (simp add: as_pyasp_def init_def)
  have k: "0 < length (fst (traverse Created ?self))"
    by (simp add: traverse_unsorted_length as_pyasp_def init_def)
  from as_pyasp_wrapping[OF flags(1) k] flags(2) obtain c where
    c: "fst (traverse Created ?self) ! 0 = Atoms c"
       "members c = {VAtom p (arguments (self_first_arg_only ?self) args)
                             | p args. (p, args) \<in> set (self_answers ?self ! 0)}"
    by auto
  from c(2) flags(3) have "members c = {VAtom ''p'' (VTuple [VInt 1]), VAtom ''q'' (VTuple [])}"
    unfolding A by (auto simp: arguments_def)
  with c(1) show "\<exists>c. fst (traverse Created ?self) ! 0 = Atoms c \<and>
        members c = {VAtom ''p'' (VTuple [VInt 1]), VAtom ''q'' (VTuple [])}"
    by blast
qed

text \<open>
  Claim C5 (the source is consumed once). After a traversal the source holds exactly
  the answer sets that the traversal has not pulled. A traversal that ends with
  StopIteration has yielded one answer for each answer set and leaves the source
  empty; a second traversal then yields nothing and ends with StopIteration at once.
  Whatever generator pulls, a pull that yields takes the first answer set out of the
  source, so that no answer set is delivered twice.
\<close>

theorem source_consumed_once:
  "self_answers (snd (snd (traverse Created self))) =
     drop (pulled (traverse Created self)) (self_answers self) \<and>
   pulled (traverse Created self) \<le> length (self_answers self) \<and>
   (fst (snd (traverse Created self)) = None \<longrightarrow>
      self_answers (snd (snd (traverse Created self))) = [] \<and>
      length (fst (traverse Created self)) = length (self_answers self) \<and>
      fst (traverse Created (snd (snd (traverse Created self)))) = [] \<and>
      fst (snd (traverse Created (snd (snd (traverse Created self))))) = None) \<and>
   (\<forall>g a g' self'. gen_next g self = (Yield a, g', self') \<longrightarrow>
      self_answers self \<noteq> [] \<and> self_answers self' = tl (self_answers self))"
proof -
  obtain as e s where T: "traverse (Suspended (self_sorted self)) self = (as, e, s)"
    by (cases "traverse (Suspended (self_sorted self)) self")
  from traverse_Suspended_source[of "self_sorted self" self] T
  have src: "self_answers s = drop (pulled (as, e, s)) (self_answers self)"
    "pulled (as, e, s) \<le> length (self_answers self)"
    "e = None \<longrightarrow> length as = length (self_answers self)"
    by simp_all
  have "self_answers s = [] \<and> length as = length (self_answers self) \<and>
      fst (traverse Created s) = [] \<and> fst (snd (traverse Created s)) = None" if "e = None"
  proof -
    from src(3) that have len: "length as = length (self_answers self)" by simp
    with src(1) that have "self_answers s = []" by simp
    with len show ?thesis
      by (simp add: traverse_Created traverse_Suspended(1))
  qed
  with src(1,2) gen_next_takes_head[of _ self] show ?thesis
    by (simp add: traverse_Created T)
qed

theorem source_consumed_once_witness:
  "self_answers (snd (snd (traverse Created (init [ [(''p'', [VInt 1])], [(''q'', [])] ])))) = [] \<and>
   length (fst (traverse Created (init [ [(''p'', [VInt 1])], [(''q'', [])] ]))) = 2 \<and>
   fst (traverse Created (snd (snd (traverse Created (init [ [(''p'', [VInt 1])], [(''q'', [])] ]))))) = []"
proof -
  let ?self = "init [ [(''p'', [VInt 1])], [(''q'', [])] ]"
  have len: "length (fst (traverse Created ?self)) = 2"
    by (simp add: traverse_unsorted_length init_def)
  have "pulled (traverse Created ?self) \<le> 2"
    using source_consumed_once[of ?self] by (simp add: init_def)
  with len have "fst (snd (traverse Created ?self)) = None"
    by (cases "traverse Created ?self" rule: pulled.cases) simp_all
  with source_consumed_once[of ?self] have
    "self_answers (snd (snd (traverse Created ?self))) = [] \<and>
     fst (traverse Created (snd (snd (traverse Created ?self)))) = []"
    by blast
  with len show ?thesis by blast
qed

text \<open>
  Claim C6 (determinism under \<open>sorted\<close>). Take two objects with the same flags whose
  sources hold, position by position, answer sets with the same atoms, enumerated in
  any order. Their traversals yield the same list of answers and end in the same way.
  With \<open>sorted\<close> every container of every answer is a sorted tuple: the top-level
  container, or each bucket of the dict under \<open>by_predicate\<close>. Without \<open>sorted\<close> every
  container is a frozenset: the answers are equal as sets and carry no order.
\<close>

theorem sorted_determinism:
  assumes "self_first_arg_only s1 = self_first_arg_only s2"
    and "self_group_atoms s1 = self_group_atoms s2"
    and "self_as_pyasp s1 = self_as_pyasp s2"
    and "self_sorted s1 = self_sorted s2"
    and "list_all2 (\<lambda>A B. mset A = mset B) (self_answers s1) (self_answers s2)"
  shows "fst (traverse Created s1) = fst (traverse Created s2) \<and>
         fst (snd (traverse Created s1)) = fst (snd (traverse Created s2)) \<and>
         (\<forall>a\<in>set (fst (traverse Created s1)).
            if self_sorted s1 then every_container in_order in_order a
            else every_container is_frozenset is_frozenset a)"
proof -
  have "every_container in_order in_order a"
    if "a \<in> set (fst (traverse Created s1))" and "self_sorted s1" for a
  proof -
    from that(1) obtain k where k: "k < length (fst (traverse Created s1))"
      and a: "a = fst (traverse Created s1) ! k"
      by (auto simp: in_set_conv_nth)
    from traverse_nth[OF k] that(2) a show ?thesis
      by (auto dest: iter_body_sorted_in_order)
  qed
  moreover have "every_container is_frozenset is_frozenset a"
    if "a \<in> set (fst (traverse Created s1))" and "\<not> self_sorted s1" for a
  proof -
    from that(1) obtain k where k: "k < length (fst (traverse Created s1))"
      and a: "a = fst (traverse Created s1) ! k"
      by (auto simp: in_set_conv_nth)
    from traverse_nth[OF k] that(2) a show ?thesis
      by (auto dest: iter_body_unsorted_frozenset)
  qed
  moreover from traverse_Suspended_cong[OF assms(1-3,5), of "self_sorted s1"] assms(4)
  have "fst (traverse Created s1) = fst (traverse Created s2) \<and>
         fst (snd (traverse Created s1)) = fst (snd (traverse Created s2))"
    by (simp add: traverse_Created)
  ultimately show ?thesis by simp
qed

theorem sorted_determinism_witness:
  "fst (traverse Created (sorted_prop (init [ [(''b'', [VInt 2]), (''a'', [VInt 1])] ]))) =
     fst (traverse Created (sorted_prop (init [ [(''a'', [VInt 1]), (''b'', [VInt 2])] ]))) \<and>
   fst (traverse Created (sorted_prop (init [ [(''a'', [VInt 1]), (''b'', [VInt 2])] ]))) =
     [Pairs (SortedTuple [(''a'', VTuple [VInt 1]), (''b'', VTuple [VInt 2])])]"
proof -
  let ?s1 = "sorted_prop (init [ [(''b'', [VInt 2]), (''a'', [VInt 1])] ])"
  let ?s2 = "sorted_prop (init [ [(''a'', [VInt 1]), (''b'', [VInt 2])] ])"
  have flags: "self_first_arg_only ?s1 = self_first_arg_only ?s2"
    "self_group_atoms ?s1 = self_group_atoms ?s2"
    "self_as_pyasp ?s1 = self_as_pyasp ?s2"
    "self_sorted ?s1 = self_sorted ?s2"
    by (simp_all add: sorted_prop_def init_def)
  have src: "list_all2 (\<lambda>A B. mset A = mset B) (self_answers ?s1) (self_answers ?s2)"
    by (simp add: sorted_prop_def init_def)
  have body: "iter_body True False False False [(''a'', [VInt 1]), (''b'', [VInt 2])] =
      Inr (Pairs (SortedTuple [(''a'', VTuple [VInt 1]), (''b'', VTuple [VInt 2])]))"
    by (simp add: iter_body_def builder_def sorted_tuple_def pairs_def arguments_def
        orderable_pair_def)
  have s2: "self_answers ?s2 = [(''a'', [VInt 1]), (''b'', [VInt 2])] # []"
    "self_sorted ?s2" "self_first_arg_only ?s2 = False" "self_group_atoms ?s2 = False"
    "self_as_pyasp ?s2 = False"
    by (simp_all add: sorted_prop_def init_def)
  have "traverse (Suspended True) ?s2 =
      (case traverse (Suspended True) (?s2\<lparr>self_answers := []\<rparr>) of
         (as, e, self'') \<Rightarrow>
           (Pairs (SortedTuple [(''a'', VTuple [VInt 1]), (''b'', VTuple [VInt 2])]) # as, e, self''))"
    by (rule traverse_Suspended(3)[OF s2(1)]) (simp only: s2 body)
  then have "fst (traverse Created ?s2) =
      [Pairs (SortedTuple [(''a'', VTuple [VInt 1]), (''b'', VTuple [VInt 2])])]"
    by (simp add: traverse_Created s2(2) traverse_Suspended(1))
  with sorted_determinism[OF flags src] show ?thesis by simp
qed



text \<open>
  Claim C8 (decoding concepts). Take an answer set of the shape of the test, its atoms
  in any order and atoms of other predicates among them, with exactly one \<open>concept\<close>
  atom for every identifier that occurs. The decoder of \<open>ConceptList\<close>, which takes
  exactly one \<open>concept\<close> and all \<open>extent\<close> and \<open>intent\<close> atoms of an identifier, constructs
  exactly one object for each identifier: its results are pairwise distinct, and they
  are the objects with an identifier \<open>n\<close> of the answer set, the extent \<open>{b. extent(n, b)}\<close>
  and the intent \<open>{b. intent(n, b)}\<close>. The selection by identifier is also the
  constructor's own: handed all \<open>extent\<close> and \<open>intent\<close> atoms of the answer set, those of
  the other identifiers too, it builds the same object. On the atoms \<open>concept(0)\<close>,
  \<open>extent(0,a)\<close>, \<open>extent(0,b)\<close>, \<open>intent(0,c)\<close>, \<open>intent(0,d)\<close> that is the single object
  with identifier 0, extent \<open>{a, b}\<close> and intent \<open>{c, d}\<close>; on the answer set of the test,
  with three identifiers, the set of the results is \<open>ConceptList.expected()\<close>.
\<close>

theorem decode_concept:
  assumes "concept_atoms atoms"
    and "\<forall>n\<in>concept_ids atoms. count_list atoms (''concept'', [VInt n]) = 1"
  shows "distinct (decode (ConceptList_decoder int_str) atoms) \<and>
         set (decode (ConceptList_decoder int_str) atoms) =
           (\<lambda>n. Inr (concept_of atoms n)) ` concept_ids atoms \<and>
         (\<forall>n\<in>concept_ids atoms.
            ConceptList_init int_str [VInt n] (atoms_of ''extent'' atoms) (atoms_of ''intent'' atoms) =
              Inr (concept_of atoms n))"
proof -
  from assms(2)
  have one: "\<forall>n\<in>concept_ids atoms. length (filter (\<lambda>atom. atom = (''concept'', [VInt n])) atoms) = 1"
    by (simp add: count_list_filter)
  from decode_ConceptList_set[OF assms(1) one] ConceptList_init_all[OF assms(1)]
  show ?thesis by blast
qed

theorem decode_concept_witness:
  "decode (ConceptList_decoder (\<lambda>s. None))
     [(''concept'', [VInt 0]), (''extent'', [VInt 0, VStr ''a'']), (''extent'', [VInt 0, VStr ''b'']),
      (''intent'', [VInt 0, VStr ''c'']), (''intent'', [VInt 0, VStr ''d''])] =
     [Inr \<lparr>self_id = 0, self_extent = {VStr ''a'', VStr ''b''},
           self_intent = {VStr ''c'', VStr ''d''}\<rparr>] \<and>
   distinct (decode (ConceptList_decoder (\<lambda>s. None)) ASP_LIST_CONCEPTS) \<and>
   set (decode (ConceptList_decoder (\<lambda>s. None)) ASP_LIST_CONCEPTS) = expected (\<lambda>s. None) \<and>
   ConceptList_init (\<lambda>s. None) [VInt 1]
       (atoms_of ''extent'' ASP_LIST_CONCEPTS) (atoms_of ''intent'' ASP_LIST_CONCEPTS) =
     Inr \<lparr>self_id = 1, self_extent = {VStr ''b'', VStr ''e''},
          self_intent = {VStr ''f'', VStr ''g''}\<rparr>"
proof
  let ?atoms = "[(''concept'', [VInt 0]), (''extent'', [VInt 0, VStr ''a'']),
      (''extent'', [VInt 0, VStr ''b'']), (''intent'', [VInt 0, VStr ''c'']),
      (''intent'', [VInt 0, VStr ''d''])]"
  have ids: "concept_ids ?atoms = {0}"
    by (simp add: concept_ids_Nil concept_ids_Cons)
  have obj: "concept_of ?atoms 0 = \<lparr>self_id = 0, self_extent = {VStr ''a'', VStr ''b''},
           self_intent = {VStr ''c'', VStr ''d''}\<rparr>"
    by (auto simp: concept_of_def)
  have shape: "concept_atoms ?atoms"
    by (simp add: concept_atoms_def)
  have one: "\<forall>n\<in>concept_ids ?atoms. count_list ?atoms (''concept'', [VInt n]) = 1"
    by (simp add: ids)
  from decode_concept[OF shape one, of "\<lambda>s. None"]
  show "decode (ConceptList_decoder (\<lambda>s. None)) ?atoms =
     [Inr \<lparr>self_id = 0, self_extent = {VStr ''a'', VStr ''b''},
           self_intent = {VStr ''c'', VStr ''d''}\<rparr>]"
    by (simp add: ids obj distinct_singleton)
next
  have shape: "concept_atoms ASP_LIST_CONCEPTS"
    by (simp add: concept_atoms_def ASP_LIST_CONCEPTS_def)
  have one: "\<forall>n\<in>concept_ids ASP_LIST_CONCEPTS. count_list ASP_LIST_CONCEPTS (''concept'', [VInt n]) = 1"
    by (simp add: concept_ids_ASP_LIST_CONCEPTS) (simp add: ASP_LIST_CONCEPTS_def)
  from decode_concept[OF shape one, of "\<lambda>s. None"]
  show "distinct (decode (ConceptList_decoder (\<lambda>s. None)) ASP_LIST_CONCEPTS) \<and>
   set (decode (ConceptList_decoder (\<lambda>s. None)) ASP_LIST_CONCEPTS) = expected (\<lambda>s. None) \<and>
   ConceptList_init (\<lambda>s. None) [VInt 1]
       (atoms_of ''extent'' ASP_LIST_CONCEPTS) (atoms_of ''intent'' ASP_LIST_CONCEPTS) =
     Inr \<lparr>self_id = 1, self_extent = {VStr ''b'', VStr ''e''},
          self_intent = {VStr ''f'', VStr ''g''}\<rparr>"
    by (simp add: concept_ids_ASP_LIST_CONCEPTS concept_of_ASP_LIST_CONCEPTS expected_objects)
qed

text \<open>
  Claim C9 (setting a flag twice). For each of the four properties, applying it twice
  leaves the object in the state that applying it once leaves, and a traversal of the
  one is the traversal of the other.
\<close>

theorem toggle_idempotent:
  "first_arg_only (first_arg_only self) = first_arg_only self \<and>
   by_predicate (by_predicate self) = by_predicate self \<and>
   as_pyasp (as_pyasp self) = as_pyasp self \<and>
   sorted_prop (sorted_prop self) = sorted_prop self \<and>
   traverse Created (first_arg_only (first_arg_only self)) = traverse Created (first_arg_only self) \<and>
   traverse Created (by_predicate (by_predicate self)) = traverse Created (by_predicate self) \<and>
   traverse Created (as_pyasp (as_pyasp self)) = traverse Created (as_pyasp self) \<and>
   traverse Created (sorted_prop (sorted_prop self)) = traverse Created (sorted_prop self)"
  by (simp add: first_arg_only_def by_predicate_def as_pyasp_def sorted_prop_def)

theorem toggle_idempotent_witness:
  "first_arg_only (first_arg_only (init [ [(''p'', [])] ])) =
     \<lparr>self_answers = [ [(''p'', [])] ], self_first_arg_only = True, self_group_atoms = False,
      self_as_pyasp = False, self_sorted = False\<rparr> \<and>
   sorted_prop (sorted_prop (init [ [(''p'', [])] ])) =
     \<lparr>self_answers = [ [(''p'', [])] ], self_first_arg_only = False, self_group_atoms = False,
      self_as_pyasp = False, self_sorted = True\<rparr>"
  using toggle_idempotent[of "init [ [(''p'', [])] ]"]
  by (simp add: first_arg_only_def sorted_prop_def init_def)

text \<open>
  Claim C10 (distinct elements without \<open>sorted\<close>). Without \<open>sorted\<close> the \<open>k\<close>-th answer is
  made of frozensets: the frozenset of the transformed pairs, that of their \<open>Atom\<close>
  objects under \<open>as_pyasp\<close>, or under \<open>by_predicate\<close> the dict whose buckets are the
  frozensets of the arguments of each predicate. Atoms that are transformed into equal
  pairs give one element: the answer has at most as many pairs as the answer set has
  distinct atoms, and under \<open>first_arg_only\<close> the two atoms \<open>p(x, y)\<close> and \<open>p(x, z)\<close> give
  the single element \<open>(p, x)\<close>, fewer elements than atoms when \<open>y\<close> and \<open>z\<close> differ.
\<close>

theorem first_arg_only_collapse:
  "(\<not> self_sorted self \<and> k < length (self_answers self) \<longrightarrow>
      fst (traverse Created self) ! k =
        (if self_group_atoms self
         then Dict (\<lambda>p. if p \<in> fst ` set (self_answers self ! k)
                then Some (FrozenSet (bucket (self_as_pyasp self)
                       (pairs (self_first_arg_only self) (self_answers self ! k)) p))
                else None)
         else if self_as_pyasp self
         then Atoms (FrozenSet ((\<lambda>(p, a). VAtom p a) `
                  set (pairs (self_first_arg_only self) (self_answers self ! k))))
         else Pairs (FrozenSet (set (pairs (self_first_arg_only self) (self_answers self ! k))))) \<and>
      card (set (pairs (self_first_arg_only self) (self_answers self ! k)))
        \<le> card (set (self_answers self ! k))) \<and>
   fst (traverse Created (first_arg_only (init [ [(p, [x, y]), (p, [x, z])] ]))) =
     [Pairs (FrozenSet {(p, x)})] \<and>
   (y \<noteq> z \<longrightarrow> card {(p, x)} < card (set [(p, [x, y]), (p, [x, z])]))"
proof (intro conjI impI)
  assume a: "\<not> self_sorted self \<and> k < length (self_answers self)"
  then have "iter_body False (self_first_arg_only self) (self_group_atoms self)
      (self_as_pyasp self) (self_answers self ! k) = Inr (fst (traverse Created self) ! k)"
    using traverse_unsorted_nth[of self k] by simp
  then show "fst (traverse Created self) ! k =
        (if self_group_atoms self
         then Dict (\<lambda>p. if p \<in> fst ` set (self_answers self ! k)
                then Some (FrozenSet (bucket (self_as_pyasp self)
                       (pairs (self_first_arg_only self) (self_answers self ! k)) p))
                else None)
         else if self_as_pyasp self
         then Atoms (FrozenSet ((\<lambda>(p, a). VAtom p a) `
                  set (pairs (self_first_arg_only self) (self_answers self ! k))))
         else Pairs (FrozenSet (set (pairs (self_first_arg_only self) (self_answers self ! k)))))"
    by (cases "self_group_atoms self")
       (auto simp: iter_body_unsorted_plain iter_body_unsorted_atoms iter_body_unsorted_grouped)
  show "card (set (pairs (self_first_arg_only self) (self_answers self ! k)))
        \<le> card (set (self_answers self ! k))"
    unfolding pairs_def set_map by (rule card_image_le) simp
next
  let ?self = "first_arg_only (init [ [(p, [x, y]), (p, [x, z])] ])"
  have flags: "\<not> self_sorted ?self" "\<not> self_group_atoms ?self" "\<not> self_as_pyasp ?self"
    "self_first_arg_only ?self" "self_answers ?self = [ [(p, [x, y]), (p, [x, z])] ]"
    by (simp_all add: first_arg_only_def init_def)
  have len: "length (fst (traverse Created ?self)) = 1"
    using flags by (simp add: traverse_unsorted_length)
  have "iter_body False True False False [(p, [x, y]), (p, [x, z])] =
          Inr (fst (traverse Created ?self) ! 0)"
    using traverse_unsorted_nth[of ?self 0] flags by simp
  then have "fst (traverse Created ?self) ! 0 = Pairs (FrozenSet {(p, x)})"
    by (simp add: iter_body_unsorted_plain pairs_def arguments_def first_arg_def)
  with len show "fst (traverse Created ?self) = [Pairs (FrozenSet {(p, x)})]"
    by (rule singleton_list)
next
  assume "y \<noteq> z"
  then show "card {(p, x)} < card (set [(p, [x, y]), (p, [x, z])])"
    by simp
qed

theorem first_arg_only_collapse_witness:
  "fst (traverse Created (first_arg_only (init
      [ [(''p'', [VStr ''x'', VStr ''y'']), (''p'', [VStr ''x'', VStr ''z''])] ]))) ! 0 =
     Pairs (FrozenSet {(''p'', VStr ''x'')}) \<and>
   card {(''p'', VStr ''x'')} <
     card (set [(''p'', [VStr ''x'', VStr ''y'']), (''p'', [VStr ''x'', VStr ''z''])])"
proof -
  let ?self = "first_arg_only (init
      [ [(''p'', [VStr ''x'', VStr ''y'']), (''p'', [VStr ''x'', VStr ''z''])] ])"
  have flags: "\<not> self_sorted ?self \<and> 0 < length (self_answers ?self)"
    "\<not> self_group_atoms ?self" "\<not> self_as_pyasp ?self"
    by (simp_all add: first_arg_only_def init_def)
  have ne: "VStr ''y'' \<noteq> VStr ''z''" by simp
  from first_arg_only_collapse[where self = ?self and k = 0 and y = "VStr ''y''"
      and z = "VStr ''z''" and p = "''p''" and x = "VStr ''x''"] flags ne
  show ?thesis
    by (simp add: first_arg_only_def init_def pairs_def arguments_def first_arg_def)
qed

end
